theory Spec2Isabelle
  imports Main
begin

section \<open>Strings as the scrapers use them\<close>

text \<open>
  Text is modelled as ASCII: a \<open>string\<close> is a list of characters, \<open>length\<close> is
  Python's \<open>len\<close>. Characters above code 127 are neither word characters nor
  white space here.
\<close>

definition is_space :: "char \<Rightarrow> bool" where
  \<comment> \<open>the ASCII characters for which \<open>str.isspace\<close> holds\<close>
  "is_space c = ((of_char c :: nat) \<in> {9, 10, 11, 12, 13, 28, 29, 30, 31, 32})"

definition is_digit :: "char \<Rightarrow> bool" where
  "is_digit c = (let n = (of_char c :: nat) in 48 \<le> n \<and> n \<le> 57)"

definition is_word :: "char \<Rightarrow> bool" where
  \<comment> \<open>the regular expression class \<open>\w\<close> on ASCII\<close>
  "is_word c = (let n = (of_char c :: nat) in
     (48 \<le> n \<and> n \<le> 57) \<or> (65 \<le> n \<and> n \<le> 90) \<or> (97 \<le> n \<and> n \<le> 122) \<or> n = 95)"

definition py_strip :: "string \<Rightarrow> string" where
  \<comment> \<open>\<open>s.strip()\<close>\<close>
  "py_strip s = rev (dropWhile is_space (rev (dropWhile is_space s)))"

definition py_lower :: "string \<Rightarrow> string" where
  \<comment> \<open>\<open>s.lower()\<close>\<close>
  "py_lower s = map (\<lambda>c. let n = (of_char c :: nat) in
                      if 65 \<le> n \<and> n \<le> 90 then char_of (n + 32) else c) s"

definition startswith :: "string \<Rightarrow> string \<Rightarrow> bool" where
  \<comment> \<open>\<open>s.startswith(p)\<close>\<close>
  "startswith s p = (take (length p) s = p)"

fun py_in :: "string \<Rightarrow> string \<Rightarrow> bool" where
  \<comment> \<open>\<open>p in s\<close> on strings: \<open>p\<close> occurs in \<open>s\<close> as a contiguous piece\<close>
  "py_in p [] = (p = [])"
| "py_in p (c # cs) = (startswith (c # cs) p \<or> py_in p cs)"

definition truthy :: "string option \<Rightarrow> bool" where
  \<comment> \<open>truth value of a string that may be \<open>None\<close>\<close>
  "truthy v = (case v of None \<Rightarrow> False | Some s \<Rightarrow> s \<noteq> [])"

definition py_or :: "string option \<Rightarrow> string option \<Rightarrow> string option" where
  \<comment> \<open>\<open>a or b\<close>\<close>
  "py_or a b = (if truthy a then a else b)"

section \<open>JSON values and files\<close>

datatype json =
    JNull
  | JBool bool
  | JNum int
  | JStr string
  | JArr "json list"
  | JObj "(string \<times> json) list"

text \<open>
  A file is absent, cannot be opened or read, holds text that is not JSON, or holds a
  JSON value.
\<close>

datatype 'a stored = Absent | Unreadable | Malformed | Holds 'a

datatype py_exn = OSError | JSONDecodeError | AttributeError | TypeError

text \<open>
  A Python \<open>set\<close> is kept as a list without repetitions; only membership, insertion and
  enumeration are used by the scraper. \<open>set(xs)\<close> keeps the first copy of each element.
\<close>

fun unique_by :: "('a \<Rightarrow> 'k) \<Rightarrow> 'k list \<Rightarrow> 'a list \<Rightarrow> 'a list" where
  \<comment> \<open>the ``Remove duplicates'' loops: keep an element when its key has not been seen\<close>
  "unique_by key seen [] = []"
| "unique_by key seen (x # xs) =
     (if key x \<in> set seen then unique_by key seen xs
      else x # unique_by key (seen @ [key x]) xs)"

definition set_add :: "'a \<Rightarrow> 'a list \<Rightarrow> 'a list" where
  \<comment> \<open>\<open>s.add(x)\<close>\<close>
  "set_add x s = (if x \<in> set s then s else s @ [x])"

fun hashable :: "json \<Rightarrow> bool" where
  "hashable (JArr _) = False"
| "hashable (JObj _) = False"
| "hashable _ = True"

fun py_set :: "json \<Rightarrow> py_exn + json list" where
  \<comment> \<open>\<open>set(v)\<close> for a value read from JSON\<close>
  "py_set (JArr xs) = (if list_all hashable xs then Inr (unique_by id [] xs) else Inl TypeError)"
| "py_set (JStr s) = Inr (unique_by id [] (map (\<lambda>c. JStr [c]) s))"
| "py_set (JObj kvs) = Inr (unique_by id [] (map (\<lambda>kv. JStr (fst kv)) kvs))"
| "py_set _ = Inl TypeError"

fun dict_get :: "json \<Rightarrow> string \<Rightarrow> json \<Rightarrow> py_exn + json" where
  \<comment> \<open>\<open>d.get(k, default)\<close>; only a JSON object has \<open>get\<close>. A repeated key keeps its last value.\<close>
  "dict_get (JObj kvs) k d = Inr (case map_of (rev kvs) k of None \<Rightarrow> d | Some v \<Rightarrow> v)"
| "dict_get _ k d = Inl AttributeError"

section \<open>Pages as the HTML parser presents them\<close>

text \<open>
  An anchor is known by its \<open>href\<close>, its text, and the tag name and \<open>class\<close> attribute
  of each element that encloses it: the CSS selectors of the scraper read nothing else.
\<close>

record anchor =
  href :: "string option"
  link_text :: string
  ancestors :: "(string \<times> string option) list"

record img =
  src :: "string option"
  data_src :: "string option"
  data_lazy :: "string option"
  img_class :: "string option"
  alt :: "string option"

text \<open>
  A parsed page: its anchors and images in document order, and for a selector the text
  of the first element it selects (\<open>select_one(selector).get_text()\<close>).
\<close>

record document =
  anchors :: "anchor list"
  imgs :: "img list"
  select_one_text :: "string \<Rightarrow> string option"

definition attr_has :: "string option \<Rightarrow> string \<Rightarrow> bool" where
  \<comment> \<open>the attribute test \<open>[attr*="s"]\<close>\<close>
  "attr_has v s = (case v of None \<Rightarrow> False | Some x \<Rightarrow> py_in s x)"

definition href_has :: "string \<Rightarrow> anchor \<Rightarrow> bool" where
  \<comment> \<open>\<open>a[href*="s"]\<close>\<close>
  "href_has s a = attr_has (href a) s"

definition under_class :: "string \<Rightarrow> anchor \<Rightarrow> bool" where
  \<comment> \<open>\<open>[class*="s"] a\<close>\<close>
  "under_class s a = list_ex (\<lambda>e. attr_has (snd e) s) (ancestors a)"

definition under_tag :: "string \<Rightarrow> anchor \<Rightarrow> bool" where
  \<comment> \<open>\<open>tag a\<close>\<close>
  "under_tag t a = list_ex (\<lambda>e. fst e = t) (ancestors a)"

definition under_tag_class :: "string \<Rightarrow> string \<Rightarrow> anchor \<Rightarrow> bool" where
  \<comment> \<open>\<open>tag[class*="s"] a\<close>\<close>
  "under_tag_class t s a = list_ex (\<lambda>e. fst e = t \<and> attr_has (snd e) s) (ancestors a)"

section \<open>The batched scraper: configuration and surroundings\<close>

definition base_url :: string where
  "base_url = ''https://www.maccosmetics.com''"

definition skincare_url :: string where
  "skincare_url = ''https://www.maccosmetics.com/skincare''"

definition batch_size :: nat where
  "batch_size = 10"

definition max_total_products :: nat where
  "max_total_products = 60"

datatype write_outcome = Written | Open_failed | Dump_failed

text \<open>
  What one run meets outside the program: \<open>urljoin\<close> of the URL library; \<open>fetch\<close>, the
  parsed page that \<open>make_request\<close> obtains for a URL (\<open>None\<close> when every attempt fails);
  \<open>head_ok\<close>, whether a \<open>HEAD\<close> request answers with status 200 without raising; the
  clock; and how the two writes of the run end. The network answers as a function of the
  URL for the length of one run.
\<close>

record env =
  urljoin :: "string \<Rightarrow> string \<Rightarrow> string"
  fetch :: "string \<Rightarrow> document option"
  head_ok :: "string \<Rightarrow> bool"
  clock :: string
  progress_write :: write_outcome
  output_write :: write_outcome

record category =
  cat_name :: string
  cat_url :: string

record work_item =
  item_name :: string
  item_url :: string
  item_category :: string
  item_category_url :: string

text \<open>
  A product dictionary. A key that a dictionary lacks reads as the empty string, as
  \<open>p.get(key)\<close> tests it.
\<close>

record product =
  name :: string
  product_url :: string
  category :: string
  brand :: string
  scraped_at :: string
  image_url :: string
  price :: string
  detailed_description :: string
  ingredients :: string
  main_image :: string
  additional_images :: "string list"

record disk =
  progress_file :: "json stored"
  output_file :: "product list stored"

section \<open>The progress ledger of the batched scraper\<close>

definition load_progress_body :: "json stored \<Rightarrow> json list \<Rightarrow> py_exn + json list" where
  \<comment> \<open>the \<open>try\<close> block of \<open>load_progress\<close>; the second argument is \<open>self.scraped_urls\<close> before the call\<close>
  "load_progress_body file scraped_urls =
     (case file of
        Absent \<Rightarrow> Inr scraped_urls
      | Unreadable \<Rightarrow> Inl OSError
      | Malformed \<Rightarrow> Inl JSONDecodeError
      | Holds progress_data \<Rightarrow>
          (case dict_get progress_data ''scraped_urls'' (JArr []) of
             Inl e \<Rightarrow> Inl e
           | Inr v \<Rightarrow> py_set v))"

definition load_progress :: "json stored \<Rightarrow> json list \<Rightarrow> json list" where
  \<comment> \<open>\<open>load_progress\<close> with its handler \<open>except Exception\<close>, which takes every exception of
      the block; the result is \<open>self.scraped_urls\<close> after the call\<close>
  "load_progress file scraped_urls =
     (case load_progress_body file scraped_urls of
        Inl e \<Rightarrow> []
      | Inr s \<Rightarrow> s)"

definition init_scraped_urls :: "json stored \<Rightarrow> json list" where
  \<comment> \<open>\<open>__init__\<close>: \<open>self.scraped_urls = set()\<close>, then \<open>self.load_progress()\<close>\<close>
  "init_scraped_urls file = load_progress file []"

definition save_progress :: "env \<Rightarrow> json list \<Rightarrow> json stored \<Rightarrow> json stored" where
  \<comment> \<open>\<open>save_progress\<close>: a failure is logged and the run goes on; a write that breaks off
      after the file was opened leaves text that is not JSON\<close>
  "save_progress e scraped_urls file =
     (case progress_write e of
        Written \<Rightarrow> Holds (JObj [(''scraped_urls'', JArr scraped_urls),
                                 (''last_updated'', JStr (clock e))])
      | Open_failed \<Rightarrow> file
      | Dump_failed \<Rightarrow> Malformed)"

section \<open>Discovery of categories and products\<close>

definition category_selectors :: "(anchor \<Rightarrow> bool) list" where
  "category_selectors =
     [href_has ''/skincare/'', href_has ''/cleansers'', href_has ''/serums'',
      href_has ''/moisturizers'', href_has ''/primers'', href_has ''/eye-care'',
      href_has ''/lip-care'', href_has ''/sunscreen'', href_has ''/setting-sprays'',
      href_has ''/essential-oils'', href_has ''/masks'', href_has ''/treatments'',
      (\<lambda>a. under_tag ''nav'' a \<and> href_has ''skincare'' a),
      under_class ''category'',
      (\<lambda>a. under_class ''nav'' a \<and> href_has ''skincare'' a)]"

definition category_of :: "env \<Rightarrow> anchor \<Rightarrow> category option" where
  \<comment> \<open>the body of the inner loop of \<open>discover_categories\<close>\<close>
  "category_of e link =
     (case href link of
        None \<Rightarrow> None
      | Some h \<Rightarrow>
          if h \<noteq> [] \<and> py_in ''skincare'' h then
            (let category_name = py_strip (link_text link) in
             if category_name \<noteq> [] \<and> length category_name > 2
             then Some \<lparr>cat_name = category_name, cat_url = urljoin e base_url h\<rparr>
             else None)
          else None)"

definition discover_categories :: "env \<Rightarrow> category list" where
  "discover_categories e =
     (case fetch e skincare_url of
        None \<Rightarrow> []
      | Some soup \<Rightarrow>
          unique_by cat_url []
            (concat (map (\<lambda>selector. List.map_filter (category_of e) (filter selector (anchors soup)))
                         category_selectors)))"

definition product_selectors :: "(anchor \<Rightarrow> bool) list" where
  "product_selectors =
     [href_has ''/product/'', href_has ''/skincare/'', under_class ''product'',
      under_class ''item'', under_class ''card'', under_class ''tile'',
      under_tag ''article'', under_tag_class ''li'' ''product'',
      under_tag_class ''div'' ''product'']"

definition new_product_of :: "env \<Rightarrow> json list \<Rightarrow> string \<Rightarrow> string \<Rightarrow> anchor \<Rightarrow> work_item option" where
  \<comment> \<open>the body of the inner loop of \<open>discover_products_in_category\<close>\<close>
  "new_product_of e scraped_urls category_url category_name link =
     (case href link of
        None \<Rightarrow> None
      | Some h \<Rightarrow>
          if h \<noteq> [] \<and> (py_in ''/product/'' h \<or> py_in ''/skincare/'' h) then
            (let product_name = py_strip (link_text link) in
             if product_name \<noteq> [] \<and> length product_name > 3 then
               (let product_url = urljoin e base_url h in
                if JStr product_url \<in> set scraped_urls then None
                else Some \<lparr>item_name = product_name, item_url = product_url,
                           item_category = category_name, item_category_url = category_url\<rparr>)
             else None)
          else None)"

definition discover_products_in_category ::
  "env \<Rightarrow> json list \<Rightarrow> string \<Rightarrow> string \<Rightarrow> work_item list" where
  "discover_products_in_category e scraped_urls category_url category_name =
     (case fetch e category_url of
        None \<Rightarrow> []
      | Some soup \<Rightarrow>
          unique_by item_url []
            (concat (map (\<lambda>selector.
                            List.map_filter (new_product_of e scraped_urls category_url category_name)
                              (filter selector (anchors soup)))
                         product_selectors)))"

section \<open>Planning the batch\<close>

fun plan_loop :: "env \<Rightarrow> json list \<Rightarrow> category list \<Rightarrow> work_item list \<Rightarrow> nat \<Rightarrow> work_item list" where
  \<comment> \<open>step 2 of \<open>scrape_batched\<close>: the loop over the categories, with \<open>all_new_products\<close>
      and \<open>total_scraped\<close> as accumulators\<close>
  "plan_loop e scraped_urls [] all_new_products total_scraped = all_new_products"
| "plan_loop e scraped_urls (c # cs) all_new_products total_scraped =
     (if total_scraped \<ge> max_total_products then all_new_products
      else
        (let products_in_category = discover_products_in_category e scraped_urls (cat_url c) (cat_name c);
             batch_products = take batch_size products_in_category
         in plan_loop e scraped_urls cs (all_new_products @ batch_products)
              (total_scraped + length batch_products)))"

definition categories_to_scan :: "env \<Rightarrow> category list" where
  \<comment> \<open>step 1 of \<open>scrape_batched\<close>, with its fallback to the main page\<close>
  "categories_to_scan e =
     (let categories = discover_categories e in
      if categories = [] then [\<lparr>cat_name = ''Skincare'', cat_url = skincare_url\<rparr>]
      else categories)"

definition planned :: "env \<Rightarrow> json list \<Rightarrow> work_item list" where
  \<comment> \<open>\<open>all_new_products\<close> when step 3 begins\<close>
  "planned e scraped_urls = plan_loop e scraped_urls (categories_to_scan e) [] 0"

definition candidates :: "env \<Rightarrow> json list \<Rightarrow> work_item list" where
  \<comment> \<open>the new products that the categories yield together: what
      \<open>discover_products_in_category\<close> returns for each category, were every one visited\<close>
  "candidates e scraped_urls =
     concat (map (\<lambda>c. discover_products_in_category e scraped_urls (cat_url c) (cat_name c))
                 (categories_to_scan e))"

definition batches_of :: "env \<Rightarrow> json list \<Rightarrow> category list \<Rightarrow> work_item list list" where
  \<comment> \<open>\<open>batch_products\<close> of each of the given categories\<close>
  "batches_of e scraped_urls cs =
     map (\<lambda>c. take batch_size
                  (discover_products_in_category e scraped_urls (cat_url c) (cat_name c)))
         cs"

definition batches :: "env \<Rightarrow> json list \<Rightarrow> work_item list list" where
  \<comment> \<open>\<open>batch_products\<close> of each category, were every one visited\<close>
  "batches e scraped_urls = batches_of e scraped_urls (categories_to_scan e)"

section \<open>Resolving the image of a product\<close>

definition img_selectors :: "(img \<Rightarrow> bool) list" where
  "img_selectors =
     [(\<lambda>i. attr_has (src i) ''.jpg''), (\<lambda>i. attr_has (src i) ''.jpeg''),
      (\<lambda>i. attr_has (src i) ''.png''), (\<lambda>i. attr_has (src i) ''.webp''),
      (\<lambda>i. attr_has (data_src i) ''.jpg''), (\<lambda>i. attr_has (data_src i) ''.png''),
      (\<lambda>i. attr_has (data_lazy i) ''.jpg''), (\<lambda>i. attr_has (data_lazy i) ''.png''),
      (\<lambda>i. attr_has (img_class i) ''product''), (\<lambda>i. attr_has (img_class i) ''main''),
      (\<lambda>i. attr_has (alt i) ''product''), (\<lambda>i. attr_has (alt i) ''MAC''),
      (\<lambda>i. True)]"

definition accept_img :: "env \<Rightarrow> img \<Rightarrow> string option" where
  \<comment> \<open>the body of the inner loop over \<open>img_elements\<close>: the URL returned for this element, if any\<close>
  "accept_img e img_elem =
     (case py_or (py_or (src img_elem) (data_src img_elem)) (data_lazy img_elem) of
        None \<Rightarrow> None
      | Some img_url \<Rightarrow>
          if img_url \<noteq> [] \<and> length img_url > 10 then
            (let img_url' = (if \<not> startswith img_url ''http'' then urljoin e base_url img_url
                             else img_url)
             in if py_in ''mac'' (py_lower img_url') \<or> py_in ''maccosmetics'' (py_lower img_url')
                then Some img_url' else None)
          else None)"

fun first_some :: "('a \<Rightarrow> 'b option) \<Rightarrow> 'a list \<Rightarrow> 'b option" where
  \<comment> \<open>a loop that leaves at the first element that gives a result\<close>
  "first_some f [] = None"
| "first_some f (x # xs) = (case f x of Some y \<Rightarrow> Some y | None \<Rightarrow> first_some f xs)"

definition scan_images :: "env \<Rightarrow> document \<Rightarrow> string option" where
  \<comment> \<open>the loop over \<open>img_selectors\<close>\<close>
  "scan_images e soup =
     first_some (accept_img e) (concat (map (\<lambda>selector. filter selector (imgs soup)) img_selectors))"

definition product_name_clean :: "string \<Rightarrow> string" where
  \<comment> \<open>drop what is neither word character nor white space, turn blanks into hyphens, lower
      the case, drop the registered sign\<close>
  "product_name_clean product_name =
     filter (\<lambda>c. (of_char c :: nat) \<noteq> 174)
       (py_lower (map (\<lambda>c. if c = CHR '' '' then CHR ''-'' else c)
                      (filter (\<lambda>c. is_word c \<or> is_space c) product_name)))"

definition potential_image_urls :: "string \<Rightarrow> string list" where
  "potential_image_urls product_name =
     (let c = product_name_clean product_name in
      [''https://sdcdn.io/mac/us/mac_sku_'' @ c @ ''_1x1_0.png?width=1080&height=1080'',
       ''https://sdcdn.io/mac/us/mac_sku_'' @ map (\<lambda>x. if x = CHR ''-'' then CHR ''_'' else x) c
          @ ''_1x1_0.png?width=1080&height=1080'',
       ''https://sdcdn.io/mac/us/mac_sku_'' @ takeWhile (\<lambda>x. x \<noteq> CHR ''-'') c
          @ ''_1x1_0.png?width=1080&height=1080''])"

definition fallback_image :: string where
  "fallback_image = ''https://sdcdn.io/mac/us/mac_sku_default_1x1_0.png?width=1080&height=1080''"

definition extract_image_from_product_page :: "env \<Rightarrow> string \<Rightarrow> string \<Rightarrow> string" where
  "extract_image_from_product_page e url product_name =
     (case fetch e url of
        None \<Rightarrow> []
      | Some soup \<Rightarrow>
          (case scan_images e soup of
             Some img_url \<Rightarrow> img_url
           | None \<Rightarrow>
               (case List.find (head_ok e) (potential_image_urls product_name) of
                  Some potential_url \<Rightarrow> potential_url
                | None \<Rightarrow> fallback_image)))"

section \<open>Details from the product page\<close>

record additional_info =
  info_price :: "string option"
  info_detailed_description :: "string option"
  info_ingredients :: "string option"

fun price_search :: "string \<Rightarrow> string option" where
  \<comment> \<open>group 1 of the leftmost match of \<open>\$(\d+\.?\d*)\<close>\<close>
  "price_search [] = None"
| "price_search (c # cs) =
     (if c = CHR ''$'' \<and> takeWhile is_digit cs \<noteq> [] then
        Some (takeWhile is_digit cs @
              (case dropWhile is_digit cs of
                 [] \<Rightarrow> []
               | d # ds \<Rightarrow> if d = CHR ''.'' then d # takeWhile is_digit ds else []))
      else price_search cs)"

definition price_selectors :: "string list" where
  \<open>price_selectors =
     [''[class*="price"]'', ''[class*="cost"]'', ''span[class*="price"]'',
      ''div[class*="price"]'', ''[data-price]'']\<close>

definition desc_selectors :: "string list" where
  \<open>desc_selectors =
     [''[class*="description"]'', ''[class*="product-description"]'',
      ''[class*="details"]'', ''p[class*="description"]'']\<close>

definition ingredients_selectors :: "string list" where
  \<open>ingredients_selectors =
     [''[class*="ingredients"]'', ''[class*="ingredient"]'', ''div[class*="ingredients"]'']\<close>

definition first_price :: "document \<Rightarrow> string option" where
  "first_price soup =
     first_some (\<lambda>selector. case select_one_text soup selector of
                    None \<Rightarrow> None
                  | Some t \<Rightarrow> map_option (\<lambda>g. ''$'' @ g) (price_search (py_strip t)))
       price_selectors"

definition first_text :: "document \<Rightarrow> string list \<Rightarrow> string option" where
  "first_text soup selectors =
     first_some (\<lambda>selector. case select_one_text soup selector of
                    None \<Rightarrow> None
                  | Some t \<Rightarrow> if py_strip t \<noteq> [] then Some (py_strip t) else None)
       selectors"

definition scrape_individual_product_page :: "env \<Rightarrow> string \<Rightarrow> additional_info" where
  "scrape_individual_product_page e url =
     (if url = [] then
        \<lparr>info_price = None, info_detailed_description = None, info_ingredients = None\<rparr>
      else
        (case fetch e url of
           None \<Rightarrow> \<lparr>info_price = None, info_detailed_description = None, info_ingredients = None\<rparr>
         | Some soup \<Rightarrow>
             \<lparr>info_price = first_price soup,
              info_detailed_description = first_text soup desc_selectors,
              info_ingredients = first_text soup ingredients_selectors\<rparr>))"

definition update_product :: "product \<Rightarrow> additional_info \<Rightarrow> product" where
  \<comment> \<open>\<open>product_info.update(additional_info)\<close>\<close>
  "update_product p a =
     p\<lparr>price := (case info_price a of None \<Rightarrow> price p | Some v \<Rightarrow> v),
       detailed_description :=
         (case info_detailed_description a of None \<Rightarrow> detailed_description p | Some v \<Rightarrow> v),
       ingredients := (case info_ingredients a of None \<Rightarrow> ingredients p | Some v \<Rightarrow> v)\<rparr>"

definition scrape_product :: "env \<Rightarrow> work_item \<Rightarrow> product" where
  \<comment> \<open>the body of the loop of step 3, up to the merge of the additional information\<close>
  "scrape_product e item =
     (let product_info =
            \<lparr>name = item_name item, product_url = item_url item, category = item_category item,
             brand = ''MAC Cosmetics'', scraped_at = clock e, image_url = [], price = [],
             detailed_description = [], ingredients = [], main_image = [],
             additional_images = []\<rparr>;
          image = extract_image_from_product_page e (item_url item) (item_name item);
          product_info' = (if image \<noteq> [] then product_info\<lparr>image_url := image, main_image := image\<rparr>
                           else product_info)
      in update_product product_info' (scrape_individual_product_page e (item_url item)))"

section \<open>Writing the output and running the batch\<close>

definition save_to_json :: "env \<Rightarrow> product list \<Rightarrow> product list stored \<Rightarrow> product list stored \<times> bool" where
  \<comment> \<open>\<open>save_to_json\<close> of the batched scraper: the new content of the output file and the
      value returned. Of the file only the \<open>products\<close> array is kept.\<close>
  "save_to_json e products file =
     (let products_with_images = filter (\<lambda>p. image_url p \<noteq> []) products;
          existing_products = (case file of Holds ps \<Rightarrow> ps | _ \<Rightarrow> []);
          all_products = existing_products @ products_with_images
      in case output_write e of
           Written \<Rightarrow> (Holds all_products, True)
         | Open_failed \<Rightarrow> (file, False)
         | Dump_failed \<Rightarrow> (Malformed, False))"

datatype pc = Enriching | Saving_output | Finished

text \<open>
  A run from the moment the batch is planned, one step for each work item, one for the
  write of the ledger that follows the loop, one for the write of the output. An
  interruption leaves the disk as the steps taken so far have made it.
\<close>

record machine =
  m_scraped_urls :: "json list"
  m_pending :: "work_item list"
  m_scraped_products :: "product list"
  m_disk :: disk
  m_pc :: pc

definition step :: "env \<Rightarrow> machine \<Rightarrow> machine" where
  "step e m =
     (case m_pc m of
        Enriching \<Rightarrow>
          (case m_pending m of
             item # rest \<Rightarrow>
               m\<lparr>m_scraped_urls := set_add (JStr (item_url item)) (m_scraped_urls m),
                 m_scraped_products := m_scraped_products m @ [scrape_product e item],
                 m_pending := rest\<rparr>
           | [] \<Rightarrow>
               m\<lparr>m_disk := (m_disk m)\<lparr>progress_file :=
                              save_progress e (m_scraped_urls m) (progress_file (m_disk m))\<rparr>,
                 m_pc := Saving_output\<rparr>)
      | Saving_output \<Rightarrow>
          m\<lparr>m_disk := (if m_scraped_products m \<noteq> []
                        then (m_disk m)\<lparr>output_file :=
                               fst (save_to_json e (m_scraped_products m) (output_file (m_disk m)))\<rparr>
                        else m_disk m),
            m_pc := Finished\<rparr>
      | Finished \<Rightarrow> m)"

definition start :: "env \<Rightarrow> disk \<Rightarrow> machine" where
  \<comment> \<open>\<open>__init__\<close> and steps 1 and 2 of \<open>scrape_batched\<close>\<close>
  "start e d =
     (let scraped_urls = init_scraped_urls (progress_file d) in
      \<lparr>m_scraped_urls = scraped_urls, m_pending = planned e scraped_urls,
       m_scraped_products = [], m_disk = d, m_pc = Enriching\<rparr>)"

definition run_for :: "nat \<Rightarrow> env \<Rightarrow> disk \<Rightarrow> machine" where
  \<comment> \<open>the run after its first \<open>n\<close> steps\<close>
  "run_for n e d = (step e ^^ n) (start e d)"

definition run :: "env \<Rightarrow> disk \<Rightarrow> machine" where
  \<comment> \<open>the whole run: every work item and the two writes\<close>
  "run e d = run_for (length (m_pending (start e d)) + 2) e d"

fun runs :: "env list \<Rightarrow> disk \<Rightarrow> disk" where
  \<comment> \<open>one run after the other on the same disk\<close>
  "runs [] d = d"
| "runs (e # es) d = runs es (m_disk (run e d))"

definition record_urls :: "json list \<Rightarrow> work_item list \<Rightarrow> json list" where
  \<comment> \<open>\<open>self.scraped_urls\<close> after the loop of step 3 has gone through the given items\<close>
  "record_urls s items = foldl (\<lambda>s i. set_add (JStr (item_url i)) s) s items"

section \<open>The comprehensive scraper\<close>

text \<open>
  The listing page as this script reads it: for each entry of \<open>product_selectors\<close> the
  dictionaries that \<open>extract_product_info_from_element\<close> builds from the selected elements,
  and for each entry of \<open>product_patterns\<close> the dictionaries that \<open>extract_product_info\<close>
  builds from the matches in the raw markup.
\<close>

record listing =
  element_infos :: "product list list"
  match_infos :: "product list list"

record detail_info = additional_info +
  info_main_image :: "string option"

definition named_with_image :: "product \<Rightarrow> bool" where
  \<comment> \<open>\<open>product_info['name'] and product_info['image_url']\<close>\<close>
  "named_with_image p = (name p \<noteq> [] \<and> image_url p \<noteq> [])"

definition structural_stage :: "listing \<Rightarrow> product list" where
  \<comment> \<open>\<open>products\<close> after the loop over \<open>product_selectors\<close>\<close>
  "structural_stage pg = filter named_with_image (concat (element_infos pg))"

definition regex_stage :: "listing \<Rightarrow> product list" where
  \<comment> \<open>what the loop over \<open>product_patterns\<close> appends\<close>
  "regex_stage pg = filter named_with_image (concat (match_infos pg))"

definition collect_products :: "listing \<Rightarrow> product list" where
  \<comment> \<open>\<open>products\<close> when the removal of duplicates begins\<close>
  "collect_products pg =
     (let products = structural_stage pg in
      if length products < 50 then products @ regex_stage pg else products)"

fun unique_names :: "string list \<Rightarrow> product list \<Rightarrow> product list" where
  \<comment> \<open>the removal of duplicates by name, which asks for the image once more\<close>
  "unique_names seen_names [] = []"
| "unique_names seen_names (p # ps) =
     (if name p \<notin> set seen_names \<and> image_url p \<noteq> []
      then p # unique_names (seen_names @ [name p]) ps
      else unique_names seen_names ps)"

definition update_details :: "product \<Rightarrow> detail_info \<Rightarrow> product" where
  \<comment> \<open>\<open>product.update(additional_info)\<close> in the comprehensive scraper\<close>
  "update_details p a =
     p\<lparr>price := (case info_price a of None \<Rightarrow> price p | Some v \<Rightarrow> v),
       detailed_description :=
         (case info_detailed_description a of None \<Rightarrow> detailed_description p | Some v \<Rightarrow> v),
       ingredients := (case info_ingredients a of None \<Rightarrow> ingredients p | Some v \<Rightarrow> v),
       main_image := (case info_main_image a of None \<Rightarrow> main_image p | Some v \<Rightarrow> v)\<rparr>"

definition scrape_all_skincare_products ::
  "bool \<Rightarrow> listing option \<Rightarrow> (string \<Rightarrow> detail_info) \<Rightarrow> product list" where
  \<comment> \<open>arguments: the answer of \<open>check_robots_txt\<close>, the listing page if the request
      succeeded, and what \<open>scrape_individual_product_page\<close> returns for a product URL\<close>
  "scrape_all_skincare_products robots_ok response details =
     (if \<not> robots_ok then []
      else case response of
             None \<Rightarrow> []
           | Some pg \<Rightarrow>
               map (\<lambda>p. update_details p (details (product_url p)))
                   (unique_names [] (collect_products pg)))"

definition save_to_json_comprehensive :: "product list \<Rightarrow> product list" where
  \<comment> \<open>the \<open>products\<close> array that \<open>save_to_json\<close> of the comprehensive scraper writes\<close>
  "save_to_json_comprehensive products = filter (\<lambda>p. image_url p \<noteq> []) products"

section \<open>The advanced scraper\<close>

definition product_keywords :: "string list" where
  "product_keywords =
     [''Cleanser'', ''Serum'', ''Moisturizer'', ''Cream'', ''Oil'', ''Mask'',
      ''Treatment'', ''Primer'', ''Setting Spray'', ''Eye Cream'', ''Sunscreen'']"

definition is_upper :: "char \<Rightarrow> bool" where
  \<comment> \<open>the class \<open>[A-Z]\<close>\<close>
  "is_upper c = (let n = (of_char c :: nat) in 65 \<le> n \<and> n \<le> 90)"

definition not_stop :: "char \<Rightarrow> bool" where
  \<comment> \<open>the class \<open>[^.!?]\<close>\<close>
  "not_stop c = (c \<noteq> CHR ''.'' \<and> c \<noteq> CHR ''!'' \<and> c \<noteq> CHR ''?'')"

function findall_keyword :: "string \<Rightarrow> string \<Rightarrow> string list" where
  \<comment> \<open>\<open>re.findall\<close> with the pattern \<open>([A-Z][^.!?]*keyword[^.!?]*)\<close>: a match begins at
      a capital letter after which the keyword occurs before the next stop character, and
      runs up to that stop character; the search goes on behind the match\<close>
  "findall_keyword keyword [] = []"
| "findall_keyword keyword (c # cs) =
     (if is_upper c \<and> py_in keyword (takeWhile not_stop cs)
      then (c # takeWhile not_stop cs) # findall_keyword keyword (dropWhile not_stop cs)
      else findall_keyword keyword cs)"
  by pat_completeness auto
termination
  by (relation "measure (\<lambda>(k, t). length t)") (auto simp: length_dropWhile_le less_Suc_eq_le)

text \<open>
  The page as the advanced scraper reads it: for each container selector the dictionaries
  that \<open>extract_product_from_element\<close> builds, for each link selector the anchors it
  selects, and the text of the page.
\<close>

record html_page =
  container_infos :: "product list list"
  link_hits :: "anchor list list"
  text_content :: string

definition link_product :: "env \<Rightarrow> anchor \<Rightarrow> product option" where
  \<comment> \<open>strategy 2\<close>
  "link_product e link =
     (case href link of
        None \<Rightarrow> None
      | Some h \<Rightarrow>
          if h \<noteq> [] \<and> py_strip (link_text link) \<noteq> [] then
            Some \<lparr>name = py_strip (link_text link), product_url = urljoin e base_url h,
                  category = ''skincare'', brand = ''MAC Cosmetics'', scraped_at = clock e,
                  image_url = [], price = [], detailed_description = [], ingredients = [],
                  main_image = [], additional_images = []\<rparr>
          else None)"

definition keyword_product :: "env \<Rightarrow> string \<Rightarrow> product" where
  "keyword_product e match =
     \<lparr>name = py_strip match, product_url = [], category = ''skincare'',
      brand = ''MAC Cosmetics'', scraped_at = clock e, image_url = [], price = [],
      detailed_description = [], ingredients = [], main_image = [], additional_images = []\<rparr>"

definition keyword_matches :: "string \<Rightarrow> string list" where
  \<comment> \<open>the matches of strategy 3 that pass the test of their length\<close>
  "keyword_matches page_text =
     concat (map (\<lambda>keyword. filter (\<lambda>match. length match > 10 \<and> length match < 100)
                                (findall_keyword keyword page_text))
                 product_keywords)"

definition keyword_candidates :: "env \<Rightarrow> string \<Rightarrow> product list" where
  \<comment> \<open>strategy 3\<close>
  "keyword_candidates e page_text = map (keyword_product e) (keyword_matches page_text)"

definition extract_products_from_html :: "env \<Rightarrow> html_page \<Rightarrow> product list" where
  "extract_products_from_html e pg =
     filter named_with_image (concat (container_infos pg))
     @ List.map_filter (link_product e) (concat (link_hits pg))
     @ keyword_candidates e (text_content pg)"

definition scrape_advanced :: "env \<Rightarrow> html_page option \<Rightarrow> product list \<Rightarrow> product list" where
  \<comment> \<open>arguments: the main page if the request succeeded, and what
      \<open>scrape_with_known_products\<close> returns\<close>
  "scrape_advanced e response known_products =
     (let products = (case response of None \<Rightarrow> [] | Some pg \<Rightarrow> extract_products_from_html e pg);
          products' = (if products = [] then known_products else products)
      in unique_by name [] products')"

definition save_to_json_advanced :: "product list \<Rightarrow> product list" where
  \<comment> \<open>the \<open>products\<close> array that \<open>save_to_json\<close> of the advanced scraper writes\<close>
  "save_to_json_advanced products = filter (\<lambda>p. image_url p \<noteq> []) products"

definition advanced_output :: "env \<Rightarrow> html_page option \<Rightarrow> product list \<Rightarrow> product list" where
  \<comment> \<open>\<open>run\<close> of the advanced scraper: the \<open>products\<close> array written, empty when nothing is saved\<close>
  "advanced_output e response known_products =
     (let products = scrape_advanced e response known_products in
      if products \<noteq> [] then save_to_json_advanced products else [])"

section \<open>Sample sites\<close>

text \<open>
  Small sites on which the runs are traced. A site is a table of rows \<open>(c, p, ns)\<close>: the
  main page links to a category \<open>c\<close>, whose page links to the products \<open>p\<close> followed by
  \<open>n\<close> letters \<open>x\<close>, for each \<open>n\<close> of \<open>ns\<close>. Every other address answers with an empty
  page, no \<open>HEAD\<close> request succeeds, and both writes succeed.
\<close>

definition sample_urljoin :: "string \<Rightarrow> string \<Rightarrow> string" where
  \<comment> \<open>\<open>urljoin\<close> on an absolute URL and on a path that begins with a slash\<close>
  "sample_urljoin b h = (if startswith h ''http'' then h else b @ h)"

definition link :: "string \<Rightarrow> string \<Rightarrow> anchor" where
  "link h t = \<lparr>href = Some h, link_text = t, ancestors = []\<rparr>"

definition page_of :: "anchor list \<Rightarrow> document" where
  "page_of as = \<lparr>anchors = as, imgs = [], select_one_text = (\<lambda>s. None)\<rparr>"

definition product_links :: "char \<Rightarrow> nat list \<Rightarrow> anchor list" where
  "product_links p ns =
     map (\<lambda>n. link (''/product/'' @ p # replicate n CHR ''x'') (''Item '' @ p # replicate n CHR ''x'')) ns"

definition site_pages :: "(char \<times> char \<times> nat list) list \<Rightarrow> (string \<times> document) list" where
  "site_pages rows =
     (skincare_url, page_of (map (\<lambda>r. link (''/skincare/'' @ [fst r]) (''Category '' @ [fst r])) rows))
     # map (\<lambda>r. (base_url @ ''/skincare/'' @ [fst r], page_of (product_links (fst (snd r)) (snd (snd r)))))
           rows"

definition sample_env :: "(char \<times> char \<times> nat list) list \<Rightarrow> env" where
  "sample_env rows =
     \<lparr>urljoin = sample_urljoin,
      fetch = (\<lambda>u. case map_of (site_pages rows) u of Some d \<Rightarrow> Some d | None \<Rightarrow> Some (page_of [])),
      head_ok = (\<lambda>u. False),
      clock = ''2024-01-01T00:00:00'',
      progress_write = Written,
      output_write = Written\<rparr>"

definition sample_item :: "char \<Rightarrow> char \<Rightarrow> nat \<Rightarrow> work_item" where
  \<comment> \<open>the work item for product \<open>p\<close>, \<open>n\<close> found in category \<open>c\<close>\<close>
  "sample_item c p n =
     \<lparr>item_name = ''Item '' @ p # replicate n CHR ''x'',
      item_url = base_url @ ''/product/'' @ p # replicate n CHR ''x'',
      item_category = ''Category '' @ [c],
      item_category_url = base_url @ ''/skincare/'' @ [c]\<rparr>"

definition sample_category :: "char \<Rightarrow> category" where
  "sample_category c = \<lparr>cat_name = ''Category '' @ [c], cat_url = base_url @ ''/skincare/'' @ [c]\<rparr>"

definition fresh_disk :: disk where
  "fresh_disk = \<lparr>progress_file = Absent, output_file = Absent\<rparr>"

definition out_products :: "disk \<Rightarrow> product list" where
  \<comment> \<open>the \<open>products\<close> array of the output file, empty when there is none to read\<close>
  "out_products d = (case output_file d of Holds ps \<Rightarrow> ps | _ \<Rightarrow> [])"

definition first_ten :: "json list" where
  \<comment> \<open>a ledger that holds the first ten products \<open>p\<close>\<close>
  "first_ten = map (\<lambda>n. JStr (item_url (sample_item CHR ''a'' CHR ''p'' n))) [0..<10]"

definition small_site :: "(char \<times> char \<times> nat list) list" where
  \<comment> \<open>one category with two products\<close>
  "small_site = [(CHR ''a'', CHR ''p'', [0..<2])]"

definition shared_site :: "(char \<times> char \<times> nat list) list" where
  \<comment> \<open>seven categories that show the same twenty products, the sixth only nineteen of them\<close>
  "shared_site =
     [(CHR ''a'', CHR ''p'', [0..<20]), (CHR ''b'', CHR ''p'', [0..<20]),
      (CHR ''c'', CHR ''p'', [0..<20]), (CHR ''d'', CHR ''p'', [0..<20]),
      (CHR ''e'', CHR ''p'', [0..<20]), (CHR ''f'', CHR ''p'', [0..<19]),
      (CHR ''g'', CHR ''p'', [0..<20])]"

definition wide_site :: "(char \<times> char \<times> nat list) list" where
  \<comment> \<open>five categories of thirteen products each, no product in two categories\<close>
  "wide_site =
     [(CHR ''a'', CHR ''a'', [0..<13]), (CHR ''b'', CHR ''b'', [0..<13]),
      (CHR ''c'', CHR ''c'', [0..<13]), (CHR ''d'', CHR ''d'', [0..<13]),
      (CHR ''e'', CHR ''e'', [0..<13])]"

definition nine_site :: "(char \<times> char \<times> nat list) list" where
  \<comment> \<open>seven categories of nine products each, no product in two categories\<close>
  "nine_site =
     [(CHR ''a'', CHR ''a'', [0..<9]), (CHR ''b'', CHR ''b'', [0..<9]),
      (CHR ''c'', CHR ''c'', [0..<9]), (CHR ''d'', CHR ''d'', [0..<9]),
      (CHR ''e'', CHR ''e'', [0..<9]), (CHR ''f'', CHR ''f'', [0..<9]),
      (CHR ''g'', CHR ''g'', [0..<9])]"

definition flaky_env :: env where
  "flaky_env =
     (sample_env small_site)\<lparr>fetch := (\<lambda>u. if u = base_url @ ''/product/px'' then None
                                          else fetch (sample_env small_site) u)\<rparr>"


definition tracker_page :: document where
  "tracker_page =
     \<lparr>anchors = [],
      imgs = [\<lparr>src = Some ''https://ads.example.com/pixel.png'', data_src = None, data_lazy = None,
               img_class = None, alt = None\<rparr>],
      select_one_text = (\<lambda>s. None)\<rparr>"

definition sample_product :: "string \<Rightarrow> string \<Rightarrow> product" where
  "sample_product n i =
     \<lparr>name = n, product_url = [], category = ''skincare'', brand = ''MAC Cosmetics'',
      scraped_at = [], image_url = i, price = [], detailed_description = [], ingredients = [],
      main_image = [], additional_images = []\<rparr>"

section \<open>The ledger loader never fails\<close>

text \<open>
  C9: whenever loading the progress ledger fails (the file is missing, cannot be read,
  does not hold JSON, or holds JSON on which the block raises), the scraper starts with
  an empty set of scraped URLs. The handler takes every exception of the block, so the
  loader returns for every file.
\<close>

theorem load_progress_failure_gives_empty_ledger:
  assumes "file = Absent \<or> (\<exists>x. load_progress_body file [] = Inl x)"
  shows "init_scraped_urls file = []"
  using assms
  by (auto simp: init_scraped_urls_def load_progress_def load_progress_body_def)

theorem load_progress_failure_gives_empty_ledger_witness:
  "load_progress_body Unreadable [] = Inl OSError
   \<and> load_progress_body Malformed [] = Inl JSONDecodeError
   \<and> load_progress_body (Holds (JArr [JStr ''u''])) [] = Inl AttributeError
   \<and> load_progress_body (Holds (JObj [(''scraped_urls'', JNum 3)])) [] = Inl TypeError
   \<and> init_scraped_urls Absent = []
   \<and> init_scraped_urls Unreadable = []
   \<and> init_scraped_urls Malformed = []
   \<and> init_scraped_urls (Holds (JArr [JStr ''u''])) = []
   \<and> init_scraped_urls (Holds (JObj [(''scraped_urls'', JNum 3)])) = []"
proof -
  have b1: "load_progress_body Unreadable [] = Inl OSError"
    and b2: "load_progress_body Malformed [] = Inl JSONDecodeError"
    and b3: "load_progress_body (Holds (JArr [JStr ''u''])) [] = Inl AttributeError"
    and b4: "load_progress_body (Holds (JObj [(''scraped_urls'', JNum 3)])) [] = Inl TypeError"
    by (simp_all add: load_progress_body_def)
  have "init_scraped_urls Absent = []"
    by (rule load_progress_failure_gives_empty_ledger) simp
  moreover have "init_scraped_urls Unreadable = []"
    by (rule load_progress_failure_gives_empty_ledger) (simp add: b1)
  moreover have "init_scraped_urls Malformed = []"
    by (rule load_progress_failure_gives_empty_ledger) (simp add: b2)
  moreover have "init_scraped_urls (Holds (JArr [JStr ''u''])) = []"
    by (rule load_progress_failure_gives_empty_ledger) (simp add: b3)
  moreover have "init_scraped_urls (Holds (JObj [(''scraped_urls'', JNum 3)])) = []"
    by (rule load_progress_failure_gives_empty_ledger) (simp add: b4)
  ultimately show ?thesis using b1 b2 b3 b4 by simp
qed

section \<open>The run in closed form\<close>

lemma start_fields [simp]:
  "m_disk (start e d) = d"
  "m_pc (start e d) = Enriching"
  "m_scraped_products (start e d) = []"
  "m_scraped_urls (start e d) = init_scraped_urls (progress_file d)"
  "m_pending (start e d) = planned e (init_scraped_urls (progress_file d))"
  by (simp_all add: start_def Let_def)

lemma enrich_steps:
  assumes "m_pc m = Enriching" and "k \<le> length (m_pending m)"
  shows "(step e ^^ k) m =
           m\<lparr>m_scraped_urls := record_urls (m_scraped_urls m) (take k (m_pending m)),
             m_scraped_products := m_scraped_products m @ map (scrape_product e) (take k (m_pending m)),
             m_pending := drop k (m_pending m)\<rparr>"
  using assms
proof (induction k arbitrary: m)
  case 0
  then show ?case by (simp add: record_urls_def)
next
  case (Suc k)
  then obtain item rest where pend: "m_pending m = item # rest"
    by (cases "m_pending m") auto
  let ?m' = "step e m"
  have m': "?m' = m\<lparr>m_scraped_urls := set_add (JStr (item_url item)) (m_scraped_urls m),
                     m_scraped_products := m_scraped_products m @ [scrape_product e item],
                     m_pending := rest\<rparr>"
    using Suc.prems(1) pend by (simp add: step_def)
  have pc': "m_pc ?m' = Enriching" and len': "k \<le> length (m_pending ?m')"
    using Suc.prems pend by (simp_all add: m')
  have "(step e ^^ Suc k) m = (step e ^^ k) ?m'"
    by (simp add: funpow_swap1)
  also have "\<dots> = ?m'\<lparr>m_scraped_urls := record_urls (m_scraped_urls ?m') (take k (m_pending ?m')),
             m_scraped_products := m_scraped_products ?m' @ map (scrape_product e) (take k (m_pending ?m')),
             m_pending := drop k (m_pending ?m')\<rparr>"
    by (rule Suc.IH [OF pc' len'])
  also have "\<dots> = m\<lparr>m_scraped_urls := record_urls (m_scraped_urls m) (take (Suc k) (m_pending m)),
             m_scraped_products := m_scraped_products m @ map (scrape_product e) (take (Suc k) (m_pending m)),
             m_pending := drop (Suc k) (m_pending m)\<rparr>"
    by (simp add: m' pend record_urls_def)
  finally show ?case .
qed

lemma run_for_enriching:
  assumes "k \<le> length (planned e (init_scraped_urls (progress_file d)))"
  shows "run_for k e d =
           \<lparr>m_scraped_urls = record_urls (init_scraped_urls (progress_file d))
                               (take k (planned e (init_scraped_urls (progress_file d)))),
            m_pending = drop k (planned e (init_scraped_urls (progress_file d))),
            m_scraped_products =
              map (scrape_product e) (take k (planned e (init_scraped_urls (progress_file d)))),
            m_disk = d, m_pc = Enriching\<rparr>"
proof -
  have "run_for k e d = (step e ^^ k) (start e d)" by (simp add: run_for_def)
  also have "\<dots> = (start e d)\<lparr>m_scraped_urls := record_urls (m_scraped_urls (start e d)) (take k (m_pending (start e d))),
             m_scraped_products := m_scraped_products (start e d) @ map (scrape_product e) (take k (m_pending (start e d))),
             m_pending := drop k (m_pending (start e d))\<rparr>"
    by (rule enrich_steps) (simp_all add: assms)
  also have "\<dots> = \<lparr>m_scraped_urls = record_urls (init_scraped_urls (progress_file d))
                               (take k (planned e (init_scraped_urls (progress_file d)))),
            m_pending = drop k (planned e (init_scraped_urls (progress_file d))),
            m_scraped_products =
              map (scrape_product e) (take k (planned e (init_scraped_urls (progress_file d)))),
            m_disk = d, m_pc = Enriching\<rparr>"
    by (simp add: start_def Let_def)
  finally show ?thesis .
qed

lemma run_eq:
  "run e d =
     \<lparr>m_scraped_urls = record_urls (init_scraped_urls (progress_file d))
                         (planned e (init_scraped_urls (progress_file d))),
      m_pending = [],
      m_scraped_products = map (scrape_product e) (planned e (init_scraped_urls (progress_file d))),
      m_disk =
        \<lparr>progress_file =
           save_progress e (record_urls (init_scraped_urls (progress_file d))
                              (planned e (init_scraped_urls (progress_file d))))
             (progress_file d),
         output_file =
           (if planned e (init_scraped_urls (progress_file d)) \<noteq> []
            then fst (save_to_json e
                        (map (scrape_product e) (planned e (init_scraped_urls (progress_file d))))
                        (output_file d))
            else output_file d)\<rparr>,
      m_pc = Finished\<rparr>"
proof -
  let ?items = "planned e (init_scraped_urls (progress_file d))"
  have "run e d = step e (step e (run_for (length ?items) e d))"
    by (simp add: run_def run_for_def)
  then show ?thesis
    by (simp add: run_for_enriching step_def)
qed

lemma out_products_run:
  assumes "output_write e = Written"
  shows "out_products (m_disk (run e d)) =
           out_products d
           @ filter (\<lambda>p. image_url p \<noteq> [])
               (map (scrape_product e) (planned e (init_scraped_urls (progress_file d))))"
  using assms by (simp add: run_eq out_products_def save_to_json_def)

section \<open>The output holds only products with an image\<close>

lemma out_products_save_to_json:
  assumes "\<forall>p \<in> set (out_products d). image_url p \<noteq> []"
  shows "\<forall>p \<in> set (out_products (d\<lparr>output_file := fst (save_to_json e ps (output_file d))\<rparr>)).
           image_url p \<noteq> []"
  using assms
  by (cases "output_file d"; cases "output_write e")
     (auto simp: out_products_def save_to_json_def)

lemma out_products_step:
  assumes "\<forall>p \<in> set (out_products (m_disk m)). image_url p \<noteq> []"
  shows "\<forall>p \<in> set (out_products (m_disk (step e m))). image_url p \<noteq> []"
proof (cases "m_pc m")
  case Enriching
  then show ?thesis using assms
    by (cases "m_pending m") (simp_all add: step_def out_products_def)
next
  case Saving_output
  then show ?thesis
    using assms out_products_save_to_json [OF assms, of e "m_scraped_products m"]
    by (simp add: step_def)
next
  case Finished
  then show ?thesis using assms by (simp add: step_def)
qed

lemma out_products_steps:
  assumes "\<forall>p \<in> set (out_products (m_disk m)). image_url p \<noteq> []"
  shows "\<forall>p \<in> set (out_products (m_disk ((step e ^^ n) m))). image_url p \<noteq> []"
  using assms by (induction n) (simp_all add: out_products_step)

lemma out_products_run_for:
  assumes "\<forall>p \<in> set (out_products d). image_url p \<noteq> []"
  shows "\<forall>p \<in> set (out_products (m_disk (run_for n e d))). image_url p \<noteq> []"
  unfolding run_for_def
  by (rule out_products_steps) (simp add: assms)

lemma out_products_runs:
  assumes "\<forall>p \<in> set (out_products d). image_url p \<noteq> []"
  shows "\<forall>p \<in> set (out_products (runs es d)). image_url p \<noteq> []"
  using assms
proof (induction es arbitrary: d)
  case Nil
  then show ?case by simp
next
  case (Cons e es)
  have "\<forall>p \<in> set (out_products (m_disk (run e d))). image_url p \<noteq> []"
    unfolding run_def by (rule out_products_run_for) (rule Cons.prems)
  then show ?case by (simp add: Cons.IH)
qed

text \<open>
  C1: every product in the \<open>products\<close> array of the output file has a non-empty
  \<open>image_url\<close>, at every moment of every run that follows any number of earlier runs on a
  disk that began without an output file; a product whose image was not resolved is
  therefore not in the file. The comprehensive scraper writes only products with an image
  too. The products already in the file are written back as they are, so the property
  rests on the file having been written by these runs.
\<close>

theorem output_products_have_images:
  "(\<forall>p \<in> set (out_products (m_disk (run_for n e (runs es fresh_disk)))). image_url p \<noteq> [])
   \<and> (\<forall>p \<in> set (out_products (runs es fresh_disk)). image_url p \<noteq> [])
   \<and> (\<forall>p \<in> set (save_to_json_comprehensive ps). image_url p \<noteq> [])"
proof -
  have fresh: "\<forall>p \<in> set (out_products fresh_disk). image_url p \<noteq> []"
    by (simp add: out_products_def fresh_disk_def)
  have all: "\<forall>p \<in> set (out_products (runs es fresh_disk)). image_url p \<noteq> []"
    by (rule out_products_runs) (rule fresh)
  have "\<forall>p \<in> set (out_products (m_disk (run_for n e (runs es fresh_disk)))). image_url p \<noteq> []"
    by (rule out_products_run_for) (rule all)
  then show ?thesis using all by (simp add: save_to_json_comprehensive_def)
qed

theorem output_products_have_images_witness:
  "map name (m_scraped_products (run flaky_env fresh_disk)) = [''Item p'', ''Item px'']
   \<and> map image_url (m_scraped_products (run flaky_env fresh_disk)) = [fallback_image, []]
   \<and> map name (out_products (runs [flaky_env] fresh_disk)) = [''Item p'']
   \<and> list_all (\<lambda>p. image_url p \<noteq> []) (out_products (runs [flaky_env] fresh_disk))"
proof -
  have pl: "planned flaky_env (init_scraped_urls (progress_file fresh_disk))
              = map (sample_item CHR ''a'' CHR ''p'') [0..<2]"
    by code_simp
  have nm: "map name (map (scrape_product flaky_env) (map (sample_item CHR ''a'' CHR ''p'') [0..<2]))
              = [''Item p'', ''Item px'']"
    by code_simp
  have im: "map image_url (map (scrape_product flaky_env) (map (sample_item CHR ''a'' CHR ''p'') [0..<2]))
              = [fallback_image, []]"
    by code_simp
  have kept: "map name (filter (\<lambda>p. image_url p \<noteq> [])
                (map (scrape_product flaky_env) (map (sample_item CHR ''a'' CHR ''p'') [0..<2])))
              = [''Item p'']"
    by code_simp
  have w: "output_write flaky_env = Written"
    by (simp add: flaky_env_def sample_env_def)
  have "list_all (\<lambda>p. image_url p \<noteq> []) (out_products (runs [flaky_env] fresh_disk))"
    using output_products_have_images [of 0 flaky_env "[flaky_env]" "[]"]
    unfolding list_all_iff by blast
  moreover have "map name (m_scraped_products (run flaky_env fresh_disk)) = [''Item p'', ''Item px'']"
    using nm by (simp only: run_eq pl machine.simps)
  moreover have "map image_url (m_scraped_products (run flaky_env fresh_disk)) = [fallback_image, []]"
    using im by (simp only: run_eq pl machine.simps)
  moreover have "map name (out_products (runs [flaky_env] fresh_disk)) = [''Item p'']"
    using kept by (simp add: out_products_run [OF w] pl) (simp add: out_products_def fresh_disk_def)
  ultimately show ?thesis by blast
qed

section \<open>The image resolver\<close>

lemma fallback_image_nonempty: "fallback_image \<noteq> []"
  by (simp add: fallback_image_def)

text \<open>
  C5: when the product page was fetched, the scan over the image selectors accepts no
  image, and every constructed CDN address fails the \<open>HEAD\<close> probe, the resolver returns
  the fixed fallback address, which is not empty. This resolver has no scan of a window
  around the product name, so nothing is assumed about one.
\<close>

theorem image_fallback_when_all_fails:
  assumes "fetch e url = Some soup"
    and "scan_images e soup = None"
    and "\<forall>u \<in> set (potential_image_urls product_name). \<not> head_ok e u"
  shows "extract_image_from_product_page e url product_name = fallback_image
         \<and> extract_image_from_product_page e url product_name \<noteq> []"
proof -
  have "List.find (head_ok e) (potential_image_urls product_name) = None"
    using assms(3) by (simp add: find_None_iff)
  then have "extract_image_from_product_page e url product_name = fallback_image"
    using assms(1,2) by (simp add: extract_image_from_product_page_def)
  then show ?thesis by (simp add: fallback_image_nonempty)
qed

theorem image_fallback_when_all_fails_witness:
  "extract_image_from_product_page
     ((sample_env [])\<lparr>fetch := (\<lambda>u. Some tracker_page)\<rparr>) (base_url @ ''/product/p'') ''Studio Fix''
   = ''https://sdcdn.io/mac/us/mac_sku_default_1x1_0.png?width=1080&height=1080''"
proof -
  let ?e = "(sample_env [])\<lparr>fetch := (\<lambda>u. Some tracker_page)\<rparr>"
  have h1: "fetch ?e (base_url @ ''/product/p'') = Some tracker_page" by simp
  have h2: "scan_images ?e tracker_page = None" by code_simp
  have h3: "\<forall>u \<in> set (potential_image_urls ''Studio Fix''). \<not> head_ok ?e u"
    by (simp add: sample_env_def)
  from image_fallback_when_all_fails [OF h1 h2 h3] show ?thesis
    by (simp add: fallback_image_def)
qed

section \<open>The threshold of the regular expression scan\<close>

text \<open>
  C7: the regular expression scan adds its candidates exactly when the structural
  selection has appended fewer than 50 products; with 50 or more, the collected products
  are those of the structural selection and the result does not depend on the matches in
  the raw markup.
\<close>

theorem regex_stage_gate:
  "(length (structural_stage pg) < 50 \<longrightarrow>
      collect_products pg = structural_stage pg @ regex_stage pg)
   \<and> (50 \<le> length (structural_stage pg) \<longrightarrow>
      collect_products pg = structural_stage pg
      \<and> scrape_all_skincare_products robots_ok (Some (pg\<lparr>match_infos := ms\<rparr>)) details
        = scrape_all_skincare_products robots_ok (Some pg) details)"
  by (simp add: collect_products_def scrape_all_skincare_products_def structural_stage_def Let_def)

theorem regex_stage_gate_witness:
  "collect_products \<lparr>element_infos = [[sample_product ''A'' ''i'']],
                     match_infos = [[sample_product ''B'' ''j'']]\<rparr>
     = [sample_product ''A'' ''i'', sample_product ''B'' ''j'']
   \<and> collect_products \<lparr>element_infos = [replicate 50 (sample_product ''A'' ''i'')],
                       match_infos = [[sample_product ''B'' ''j'']]\<rparr>
     = replicate 50 (sample_product ''A'' ''i'')"
proof -
  let ?few = "\<lparr>element_infos = [[sample_product ''A'' ''i'']],
               match_infos = [[sample_product ''B'' ''j'']]\<rparr>"
  let ?many = "\<lparr>element_infos = [replicate 50 (sample_product ''A'' ''i'')],
                match_infos = [[sample_product ''B'' ''j'']]\<rparr>"
  have s1: "structural_stage ?few = [sample_product ''A'' ''i'']"
    and r1: "regex_stage ?few = [sample_product ''B'' ''j'']"
    and s2: "structural_stage ?many = replicate 50 (sample_product ''A'' ''i'')"
    by (simp_all add: structural_stage_def regex_stage_def named_with_image_def sample_product_def)
  have "length (structural_stage ?few) < 50" by (simp add: s1)
  with regex_stage_gate [of ?few] have "collect_products ?few = structural_stage ?few @ regex_stage ?few"
    by blast
  moreover have "50 \<le> length (structural_stage ?many)" by (simp add: s2)
  with regex_stage_gate [of ?many] have "collect_products ?many = structural_stage ?many"
    by blast
  ultimately show ?thesis by (simp add: s1 r1 s2)
qed

section \<open>Keyword candidates\<close>

lemma length_py_strip: "length (py_strip s) \<le> length s"
proof -
  have "length (py_strip s) \<le> length (dropWhile is_space s)"
    unfolding py_strip_def using length_dropWhile_le [of is_space "rev (dropWhile is_space s)"]
    by simp
  also have "\<dots> \<le> length s" by (rule length_dropWhile_le)
  finally show ?thesis .
qed

text \<open>
  C8, as the code has it: every candidate of the keyword scan comes from a matched text of
  more than 10 and fewer than 100 characters and is named by that text with the white
  space stripped from its ends, so its name has fewer than 100 characters; it has an empty
  image URL and is never in the products that the advanced scraper writes.
\<close>

theorem keyword_candidate_shape:
  assumes "p \<in> set (keyword_candidates e page_text)"
  shows "(\<exists>m. name p = py_strip m \<and> 10 < length m \<and> length m < 100)
         \<and> length (name p) < 100
         \<and> image_url p = []
         \<and> p \<notin> set (save_to_json_advanced ps)
         \<and> p \<notin> set (advanced_output e' response known_products)"
proof -
  from assms obtain m where m: "m \<in> set (keyword_matches page_text)" and p: "p = keyword_product e m"
    by (auto simp: keyword_candidates_def)
  from m have len: "10 < length m" "length m < 100"
    by (auto simp: keyword_matches_def)
  have nm: "name p = py_strip m" and img: "image_url p = []"
    by (simp_all add: p keyword_product_def)
  have "length (name p) < 100"
    using length_py_strip [of m] len nm by simp
  moreover have "p \<notin> set (save_to_json_advanced qs)" for qs
    using img by (simp add: save_to_json_advanced_def)
  then have "p \<notin> set (save_to_json_advanced ps)" "p \<notin> set (advanced_output e' response known_products)"
    by (simp_all add: advanced_output_def Let_def)
  ultimately show ?thesis using nm len img by blast
qed

theorem keyword_candidate_shape_witness:
  "keyword_product (sample_env []) ''Try The Hyper Real Serum now''
     \<in> set (keyword_candidates (sample_env []) ''Buy. Try The Hyper Real Serum now. Or not'')
   \<and> length (name (keyword_product (sample_env []) ''Try The Hyper Real Serum now'')) < 100
   \<and> keyword_product (sample_env []) ''Try The Hyper Real Serum now''
     \<notin> set (save_to_json_advanced [keyword_product (sample_env []) ''Try The Hyper Real Serum now''])"
proof -
  have h: "keyword_product (sample_env []) ''Try The Hyper Real Serum now''
     \<in> set (keyword_candidates (sample_env []) ''Buy. Try The Hyper Real Serum now. Or not'')"
    by code_simp
  from keyword_candidate_shape [OF h] h show ?thesis by blast
qed

text \<open>
  C8 as stated fails: the test of the length is made on the matched text, the name is the
  stripped text. On the page text \<open>A Serum\<close> followed by seven blanks the match has 14
  characters and the candidate is named \<open>A Serum\<close>, of 7 characters.
\<close>

theorem keyword_candidate_short_name:
  "map name (keyword_candidates (sample_env []) ''A Serum       '') = [''A Serum'']
   \<and> \<not> 10 < length ''A Serum''"
  by code_simp

section \<open>Removing duplicates\<close>

lemma unique_by_subset: "set (unique_by key seen xs) \<subseteq> set xs"
  by (induction xs arbitrary: seen) auto

lemma unique_by_keys: "key ` set (unique_by key seen xs) = key ` set xs - set seen"
  by (induction xs arbitrary: seen) auto

lemma unique_by_distinct: "distinct (map key (unique_by key seen xs))"
proof (induction xs arbitrary: seen)
  case Nil
  then show ?case by simp
next
  case (Cons x xs)
  have "key x \<notin> key ` set (unique_by key (seen @ [key x]) xs)"
    by (simp add: unique_by_keys)
  then show ?case using Cons.IH by simp
qed

lemma unique_by_seen_cong:
  "set s1 = set s2 \<Longrightarrow> unique_by key s1 xs = unique_by key s2 xs"
proof (induction xs arbitrary: s1 s2)
  case Nil
  then show ?case by simp
next
  case (Cons x xs)
  have a: "unique_by key (s1 @ [key x]) xs = unique_by key (s2 @ [key x]) xs"
    by (rule Cons.IH) (simp add: Cons.prems)
  have b: "unique_by key s1 xs = unique_by key s2 xs"
    by (rule Cons.IH) (rule Cons.prems)
  show ?case using Cons.prems a b by simp
qed

lemma unique_by_seen_unused:
  "\<forall>y \<in> set ys. key y \<notin> set extra \<Longrightarrow> unique_by key (seen @ extra) ys = unique_by key seen ys"
proof (induction ys arbitrary: seen)
  case Nil
  then show ?case by simp
next
  case (Cons y ys)
  have rest: "\<forall>y \<in> set ys. key y \<notin> set extra" using Cons.prems by simp
  have "unique_by key ((seen @ extra) @ [key y]) ys = unique_by key ((seen @ [key y]) @ extra) ys"
    by (rule unique_by_seen_cong) auto
  also have "\<dots> = unique_by key (seen @ [key y]) ys"
    by (rule Cons.IH) (rule rest)
  finally have a: "unique_by key ((seen @ extra) @ [key y]) ys = unique_by key (seen @ [key y]) ys" .
  have b: "unique_by key (seen @ extra) ys = unique_by key seen ys"
    by (rule Cons.IH) (rule rest)
  have c: "key y \<notin> set extra" using Cons.prems by simp
  show ?case using a b c by simp
qed

lemma unique_by_filter:
  assumes "\<And>x y. key x = key y \<Longrightarrow> P x = P y"
  shows "unique_by key seen (filter P xs) = filter P (unique_by key seen xs)"
proof (induction xs arbitrary: seen)
  case Nil
  then show ?case by simp
next
  case (Cons x xs)
  show ?case
  proof (cases "P x")
    case True
    then show ?thesis by (simp add: Cons.IH)
  next
    case False
    have l: "unique_by key seen (filter P (x # xs)) = filter P (unique_by key seen xs)"
      using False by (simp add: Cons.IH)
    show ?thesis
    proof (cases "key x \<in> set seen")
      case True
      then show ?thesis using l by simp
    next
      case notseen: False
      have "key y \<noteq> key x" if "y \<in> set (filter P xs)" for y
      proof
        assume "key y = key x"
        then have "P y = P x" by (rule assms)
        then show False using that False by simp
      qed
      then have "\<forall>y \<in> set (filter P xs). key y \<notin> set [key x]"
        by simp
      then have "unique_by key (seen @ [key x]) (filter P xs) = unique_by key seen (filter P xs)"
        by (rule unique_by_seen_unused)
      then have "filter P (unique_by key (seen @ [key x]) xs) = filter P (unique_by key seen xs)"
        by (simp only: Cons.IH)
      then have "filter P (unique_by key seen (x # xs)) = filter P (unique_by key seen xs)"
        using notseen False by simp
      then show ?thesis using l by simp
    qed
  qed
qed

lemma unique_by_id_distinct:
  "distinct xs \<Longrightarrow> set xs \<inter> set seen = {} \<Longrightarrow> unique_by id seen xs = xs"
  by (induction xs arbitrary: seen) auto

section \<open>The ledger in memory and on disk\<close>

lemma set_set_add [simp]: "set (set_add x s) = insert x (set s)"
  by (auto simp: set_add_def)

lemma distinct_set_add: "distinct s \<Longrightarrow> distinct (set_add x s)"
  by (simp add: set_add_def)

lemma set_record_urls: "set (record_urls s items) = set s \<union> JStr ` item_url ` set items"
  unfolding record_urls_def by (induction items arbitrary: s) auto

lemma hashable_record_urls:
  "\<forall>x \<in> set s. hashable x \<Longrightarrow> \<forall>x \<in> set (record_urls s items). hashable x"
  by (auto simp: set_record_urls)

lemma hashable_unique_by:
  "\<forall>x \<in> set xs. hashable x \<Longrightarrow> \<forall>x \<in> set (unique_by id seen xs). hashable x"
  using unique_by_subset [of id seen xs] by blast

lemma hashable_py_set:
  assumes "py_set v = Inr s"
  shows "\<forall>x \<in> set s. hashable x"
proof (cases v)
  case (JArr xs)
  with assms have "list_all hashable xs" and "s = unique_by id [] xs"
    by (simp_all split: if_splits)
  then show ?thesis using hashable_unique_by [of xs "[]"] by (simp add: list_all_iff)
next
  case (JStr str)
  with assms have "s = unique_by id [] (map (\<lambda>c. JStr [c]) str)" by simp
  then show ?thesis using hashable_unique_by [of "map (\<lambda>c. JStr [c]) str" "[]"] by simp
next
  case (JObj kvs)
  with assms have "s = unique_by id [] (map (\<lambda>kv. JStr (fst kv)) kvs)" by simp
  then show ?thesis using hashable_unique_by [of "map (\<lambda>kv. JStr (fst kv)) kvs" "[]"] by simp
qed (use assms in simp_all)

lemma hashable_init: "\<forall>x \<in> set (init_scraped_urls file). hashable x"
proof (cases "load_progress_body file []")
  case (Inl x)
  then show ?thesis by (simp add: init_scraped_urls_def load_progress_def)
next
  case (Inr s)
  have "\<forall>x \<in> set s. hashable x"
  proof (cases "file")
    case (Holds v)
    with Inr obtain w where "py_set w = Inr s"
      by (auto simp: load_progress_body_def split: sum.splits)
    then show ?thesis by (rule hashable_py_set)
  qed (use Inr in \<open>simp_all add: load_progress_body_def\<close>)
  then show ?thesis using Inr by (simp add: init_scraped_urls_def load_progress_def)
qed

lemma init_after_save:
  assumes "progress_write e = Written" and "\<forall>x \<in> set urls. hashable x"
  shows "set (init_scraped_urls (save_progress e urls file)) = set urls"
proof -
  have "list_all hashable urls" using assms(2) by (simp add: list_all_iff)
  then have "init_scraped_urls (save_progress e urls file) = unique_by id [] urls"
    using assms(1)
    by (simp add: init_scraped_urls_def load_progress_def load_progress_body_def save_progress_def)
  then show ?thesis using unique_by_keys [of id "[]" urls] by simp
qed


lemma ledger_after_run:
  assumes "progress_write e = Written"
  shows "set (init_scraped_urls (progress_file (m_disk (run e d))))
           = set (init_scraped_urls (progress_file d))
             \<union> JStr ` item_url ` set (planned e (init_scraped_urls (progress_file d)))"
proof -
  have "\<forall>x \<in> set (record_urls (init_scraped_urls (progress_file d))
                       (planned e (init_scraped_urls (progress_file d)))). hashable x"
    by (rule hashable_record_urls) (rule hashable_init)
  from init_after_save [OF assms this] show ?thesis
    by (simp add: run_eq set_record_urls)
qed



section \<open>What discovery and planning select\<close>

lemma in_map_filter: "y \<in> set (List.map_filter f xs) \<longleftrightarrow> (\<exists>x \<in> set xs. f x = Some y)"
  by (induction xs) (auto simp: List.map_filter_simps split: option.splits)

lemma new_product_of_Some:
  assumes "new_product_of e led cu cn l = Some i"
  shows "JStr (item_url i) \<notin> set led \<and> item_category_url i = cu"
proof (cases "href l")
  case None
  then show ?thesis using assms by (simp add: new_product_of_def)
next
  case (Some h)
  then show ?thesis using assms
    by (simp add: new_product_of_def Let_def split: if_splits) auto
qed

lemma discover_items:
  assumes "i \<in> set (discover_products_in_category e led cu cn)"
  shows "JStr (item_url i) \<notin> set led \<and> item_category_url i = cu"
proof (cases "fetch e cu")
  case None
  then show ?thesis using assms by (simp add: discover_products_in_category_def)
next
  case (Some soup)
  let ?all = "concat (map (\<lambda>selector. List.map_filter (new_product_of e led cu cn)
                              (filter selector (anchors soup))) product_selectors)"
  have "i \<in> set (unique_by item_url [] ?all)"
    using assms Some by (simp add: discover_products_in_category_def)
  then have "i \<in> set ?all" by (rule subsetD [OF unique_by_subset])
  then obtain l where "new_product_of e led cu cn l = Some i"
    by (auto simp: in_map_filter)
  then show ?thesis by (rule new_product_of_Some)
qed

lemma plan_loop_items:
  assumes "i \<in> set (plan_loop e led cs acc t)"
  shows "i \<in> set acc \<or> (\<exists>c \<in> set cs. i \<in> set (discover_products_in_category e led (cat_url c) (cat_name c)))"
  using assms
proof (induction cs arbitrary: acc t)
  case Nil
  then show ?case by simp
next
  case (Cons c cs)
  show ?case
  proof (cases "t \<ge> max_total_products")
    case True
    then show ?thesis using Cons.prems by simp
  next
    case False
    let ?b = "take batch_size (discover_products_in_category e led (cat_url c) (cat_name c))"
    have "i \<in> set (plan_loop e led cs (acc @ ?b) (t + length ?b))"
      using Cons.prems False by (simp add: Let_def)
    from Cons.IH [OF this]
    have "i \<in> set acc \<or> i \<in> set ?b
          \<or> (\<exists>c \<in> set cs. i \<in> set (discover_products_in_category e led (cat_url c) (cat_name c)))"
      by auto
    then show ?thesis using in_set_takeD [of i batch_size] by auto
  qed
qed

lemma planned_not_in_ledger:
  assumes "i \<in> set (planned e led)"
  shows "JStr (item_url i) \<notin> set led"
proof -
  from plan_loop_items [OF assms [unfolded planned_def]]
  obtain c :: category
    where "i \<in> set (discover_products_in_category e led (cat_url c) (cat_name c))"
    by auto
  then show ?thesis using discover_items by blast
qed

lemma product_url_scrape_product [simp]: "product_url (scrape_product e i) = item_url i"
  by (simp add: scrape_product_def update_product_def Let_def)

section \<open>Interrupted runs\<close>

text \<open>
  C4, as the code has it: the URL of each finished work item is added to the set in memory
  at once, but the progress file is written once, after the last work item, and the output
  file after that. A run that is interrupted after any number of work items leaves the
  disk as it was before the run, so the next run over the same source plans the same
  items again; a run that completes and whose write of the ledger succeeds stores the URL
  of every planned item.
\<close>

theorem interruption_loses_the_ledger_of_the_run:
  assumes "n \<le> length (m_pending (start e d))"
  shows "m_disk (run_for n e d) = d
         \<and> JStr ` item_url ` set (take n (m_pending (start e d))) \<subseteq> set (m_scraped_urls (run_for n e d))
         \<and> m_pending (start e (m_disk (run_for n e d))) = m_pending (start e d)
         \<and> (progress_write e = Written \<longrightarrow>
              JStr ` item_url ` set (m_pending (start e d))
                \<subseteq> set (init_scraped_urls (progress_file (m_disk (run e d)))))"
proof -
  have n: "n \<le> length (planned e (init_scraped_urls (progress_file d)))"
    using assms by simp
  have disk: "m_disk (run_for n e d) = d"
    by (simp add: run_for_enriching [OF n])
  have mem: "JStr ` item_url ` set (take n (m_pending (start e d))) \<subseteq> set (m_scraped_urls (run_for n e d))"
    by (simp add: run_for_enriching [OF n] set_record_urls)
  have "progress_write e = Written \<longrightarrow>
          JStr ` item_url ` set (m_pending (start e d))
            \<subseteq> set (init_scraped_urls (progress_file (m_disk (run e d))))"
    by (simp add: ledger_after_run)
  then show ?thesis using disk mem by simp
qed

theorem interruption_loses_the_ledger_of_the_run_witness:
  "(1::nat) \<le> length (m_pending (start (sample_env small_site) fresh_disk))
   \<and> m_disk (run_for 1 (sample_env small_site) fresh_disk) = fresh_disk"
proof -
  have pl: "planned (sample_env small_site) (init_scraped_urls (progress_file fresh_disk))
              = map (sample_item CHR ''a'' CHR ''p'') [0..<2]"
    by code_simp
  have h: "(1::nat) \<le> length (m_pending (start (sample_env small_site) fresh_disk))"
    by (simp add: pl)
  from interruption_loses_the_ledger_of_the_run [OF h] h show ?thesis by blast
qed

text \<open>
  C4 as stated fails: on the site with one category and two products, after the first
  work item is finished its URL is in the set in memory and its record among the scraped
  products, yet neither file exists on disk, and a run started from that disk plans the
  same two products.
\<close>

theorem finalized_item_not_on_disk_when_interrupted:
  "map product_url (m_scraped_products (run_for 1 (sample_env small_site) fresh_disk))
     = [''https://www.maccosmetics.com/product/p'']
   \<and> m_scraped_urls (run_for 1 (sample_env small_site) fresh_disk)
     = [JStr ''https://www.maccosmetics.com/product/p'']
   \<and> progress_file (m_disk (run_for 1 (sample_env small_site) fresh_disk)) = Absent
   \<and> output_file (m_disk (run_for 1 (sample_env small_site) fresh_disk)) = Absent
   \<and> map item_url (m_pending (start (sample_env small_site)
                        (m_disk (run_for 1 (sample_env small_site) fresh_disk))))
     = [''https://www.maccosmetics.com/product/p'', ''https://www.maccosmetics.com/product/px'']"
proof -
  have pl: "planned (sample_env small_site) (init_scraped_urls (progress_file fresh_disk))
              = map (sample_item CHR ''a'' CHR ''p'') [0..<2]"
    by code_simp
  have n: "1 \<le> length (planned (sample_env small_site) (init_scraped_urls (progress_file fresh_disk)))"
    by (simp add: pl)
  have urls: "map item_url (map (sample_item CHR ''a'' CHR ''p'') [0..<2])
                = [''https://www.maccosmetics.com/product/p'', ''https://www.maccosmetics.com/product/px'']"
    by code_simp
  have t1: "take 1 (map (sample_item CHR ''a'' CHR ''p'') [0..<2]) = [sample_item CHR ''a'' CHR ''p'' 0]"
    by code_simp
  have u0: "item_url (sample_item CHR ''a'' CHR ''p'' 0) = ''https://www.maccosmetics.com/product/p''"
    by code_simp
  have i0: "init_scraped_urls (progress_file fresh_disk) = []"
    by code_simp
  note r = run_for_enriching [OF n]
  have "map product_url (m_scraped_products (run_for 1 (sample_env small_site) fresh_disk))
          = [''https://www.maccosmetics.com/product/p'']"
    by (simp only: r pl t1 machine.simps) (simp add: u0)
  moreover have "m_scraped_urls (run_for 1 (sample_env small_site) fresh_disk)
          = [JStr ''https://www.maccosmetics.com/product/p'']"
    by (simp only: r pl t1 machine.simps) (simp add: i0 u0 record_urls_def set_add_def)
  moreover have "m_disk (run_for 1 (sample_env small_site) fresh_disk) = fresh_disk"
    by (simp only: r machine.simps)
  moreover have "progress_file fresh_disk = Absent" "output_file fresh_disk = Absent"
    by (simp_all add: fresh_disk_def)
  ultimately show ?thesis using pl urls by simp
qed

section \<open>Items are recorded whether or not they got an image\<close>

lemma products_of_run:
  "product_url ` set (m_scraped_products (run e d))
     = item_url ` set (planned e (init_scraped_urls (progress_file d)))"
  by (simp add: run_eq image_image)



section \<open>The shape of the plan\<close>

lemma batches_of_scan: "batches e led = batches_of e led (categories_to_scan e)"
  by (simp add: batches_def)

lemma plan_loop_closed:
  "t \<ge> max_total_products \<Longrightarrow> plan_loop e led cs acc t = acc"
  by (cases cs) simp_all

lemma plan_loop_open:
  "\<not> max_total_products \<le> t \<Longrightarrow>
   plan_loop e led (c # cs) acc t =
     plan_loop e led cs
       (acc @ take batch_size (discover_products_in_category e led (cat_url c) (cat_name c)))
       (t + length (take batch_size (discover_products_in_category e led (cat_url c) (cat_name c))))"
  by (simp add: Let_def)

lemma plan_loop_prefix:
  "\<exists>k \<le> length cs. plan_loop e led cs acc t = acc @ concat (take k (batches_of e led cs))"
proof (induction cs arbitrary: acc t)
  case Nil
  then show ?case by simp
next
  case (Cons c cs)
  show ?case
  proof (cases "t \<ge> max_total_products")
    case True
    then have "plan_loop e led (c # cs) acc t = acc @ concat (take 0 (batches_of e led (c # cs)))"
      by (simp add: plan_loop_closed)
    then show ?thesis by blast
  next
    case False
    let ?b = "take batch_size (discover_products_in_category e led (cat_url c) (cat_name c))"
    from Cons.IH [of "acc @ ?b" "t + length ?b"]
    obtain k where k: "k \<le> length cs"
      and eq: "plan_loop e led cs (acc @ ?b) (t + length ?b)
                 = (acc @ ?b) @ concat (take k (batches_of e led cs))"
      by blast
    have "plan_loop e led (c # cs) acc t = acc @ concat (take (Suc k) (batches_of e led (c # cs)))"
      using False eq by (simp add: Let_def batches_of_def)
    moreover have "Suc k \<le> length (c # cs)" using k by simp
    ultimately show ?thesis by blast
  qed
qed

lemma plan_loop_all:
  assumes "t = length acc" and "t + length (concat (batches_of e led cs)) < max_total_products"
  shows "plan_loop e led cs acc t = acc @ concat (batches_of e led cs)"
  using assms
proof (induction cs arbitrary: acc t)
  case Nil
  then show ?case by (simp add: batches_of_def)
next
  case (Cons c cs)
  let ?b = "take batch_size (discover_products_in_category e led (cat_url c) (cat_name c))"
  have below: "\<not> max_total_products \<le> t" using Cons.prems(2) by simp
  have "plan_loop e led cs (acc @ ?b) (t + length ?b) = (acc @ ?b) @ concat (batches_of e led cs)"
    by (rule Cons.IH) (use Cons.prems in \<open>simp_all add: batches_of_def\<close>)
  then show ?case using below by (simp add: Let_def batches_of_def)
qed

lemma plan_loop_reaches_cap:
  assumes "t = length acc" and "max_total_products \<le> t + length (concat (batches_of e led cs))"
  shows "max_total_products \<le> length (plan_loop e led cs acc t)"
  using assms
proof (induction cs arbitrary: acc t)
  case Nil
  then show ?case by (simp add: batches_of_def)
next
  case (Cons c cs)
  show ?case
  proof (cases "t \<ge> max_total_products")
    case True
    then show ?thesis using Cons.prems(1) by (simp add: plan_loop_closed)
  next
    case False
    let ?b = "take batch_size (discover_products_in_category e led (cat_url c) (cat_name c))"
    have "max_total_products \<le> length (plan_loop e led cs (acc @ ?b) (t + length ?b))"
      by (rule Cons.IH) (use Cons.prems in \<open>simp_all add: batches_of_def\<close>)
    then show ?thesis using False by (simp add: Let_def)
  qed
qed

lemma planned_prefix:
  "\<exists>k \<le> length (batches e led). planned e led = concat (take k (batches e led))"
  using plan_loop_prefix [of "categories_to_scan e" e led "[]" 0]
  by (simp add: planned_def batches_of_scan batches_of_def)

lemma planned_all:
  "length (concat (batches e led)) < max_total_products \<Longrightarrow> planned e led = concat (batches e led)"
  using plan_loop_all [of 0 "[]" e led "categories_to_scan e"]
  by (simp add: planned_def batches_of_scan)

lemma planned_reaches_cap:
  "max_total_products \<le> length (concat (batches e led)) \<Longrightarrow> max_total_products \<le> length (planned e led)"
  using plan_loop_reaches_cap [of 0 "[]" e led "categories_to_scan e"]
  by (simp add: planned_def batches_of_scan)

lemma length_concat_take: "length (concat (take k xss)) \<le> length (concat xss)"
proof -
  have "concat xss = concat (take k xss) @ concat (drop k xss)"
    by (metis append_take_drop_id concat_append)
  then show ?thesis by (metis le_add1 length_append)
qed

lemma planned_length_le: "length (planned e led) \<le> length (concat (batches e led))"
proof -
  from planned_prefix obtain k where "planned e led = concat (take k (batches e led))"
    by blast
  then show ?thesis by (simp add: length_concat_take)
qed

section \<open>The cap of a category\<close>

lemma distinct_categories: "distinct (map cat_url (categories_to_scan e))"
proof (cases "discover_categories e = []")
  case True
  then show ?thesis by (simp add: categories_to_scan_def)
next
  case False
  have "distinct (map cat_url (discover_categories e))"
    by (cases "fetch e skincare_url") (simp_all add: discover_categories_def unique_by_distinct)
  then show ?thesis using False by (simp add: categories_to_scan_def)
qed

lemma plan_loop_per_category:
  assumes "distinct (map cat_url cs)"
  shows "length (filter (\<lambda>i. item_category_url i = u) (plan_loop e led cs acc t))
           \<le> length (filter (\<lambda>i. item_category_url i = u) acc)
             + (if u \<in> cat_url ` set cs then batch_size else 0)"
  using assms
proof (induction cs arbitrary: acc t)
  case Nil
  then show ?case by simp
next
  case (Cons c cs)
  show ?case
  proof (cases "t \<ge> max_total_products")
    case True
    then show ?thesis by (simp add: plan_loop_closed)
  next
    case False
    let ?b = "take batch_size (discover_products_in_category e led (cat_url c) (cat_name c))"
    let ?Q = "\<lambda>i. item_category_url i = u"
    have d: "distinct (map cat_url cs)" and fresh: "cat_url c \<notin> cat_url ` set cs"
      using Cons.prems by simp_all
    have items: "\<forall>i \<in> set ?b. item_category_url i = cat_url c"
      using discover_items in_set_takeD by fast
    have ih: "length (filter ?Q (plan_loop e led cs (acc @ ?b) (t + length ?b)))
                \<le> length (filter ?Q (acc @ ?b)) + (if u \<in> cat_url ` set cs then batch_size else 0)"
      by (rule Cons.IH) (rule d)
    have b: "length (filter ?Q ?b) \<le> (if u = cat_url c then batch_size else 0)"
    proof (cases "u = cat_url c")
      case True
      have "length (filter ?Q ?b) \<le> length ?b" by (rule length_filter_le)
      also have "\<dots> \<le> batch_size" by simp
      finally show ?thesis using True by simp
    next
      case False
      then have "filter ?Q ?b = []" using items by (auto simp: filter_empty_conv)
      then show ?thesis by simp
    qed
    show ?thesis
    proof (cases "u = cat_url c")
      case True
      then have "u \<notin> cat_url ` set cs" using fresh by simp
      then show ?thesis using ih b True False by (simp add: Let_def)
    next
      case neq: False
      then show ?thesis using ih b False by (simp add: Let_def)
    qed
  qed
qed

text \<open>
  C6: of the work items planned for one run, at most 10 come from any one category,
  whether or not the global cap is reached; a category from which more than 10 new
  products are discovered gives its first 10.
\<close>

theorem per_category_cap:
  "length (filter (\<lambda>i. item_category_url i = u) (planned e led)) \<le> 10"
proof -
  have "length (filter (\<lambda>i. item_category_url i = u) (planned e led))
          \<le> (if u \<in> cat_url ` set (categories_to_scan e) then batch_size else 0)"
    using plan_loop_per_category [OF distinct_categories, where u = u and e = e and led = led
        and acc = "[]" and t = 0]
    by (simp add: planned_def)
  also have "\<dots> \<le> 10" by (simp add: batch_size_def)
  finally show ?thesis .
qed

lemma plan_loop_at_most:
  assumes "t = length acc" and "length acc < max_total_products + batch_size"
  shows "length (plan_loop e led cs acc t) < max_total_products + batch_size"
  using assms
proof (induction cs arbitrary: acc t)
  case Nil
  then show ?case by simp
next
  case (Cons c cs)
  show ?case
  proof (cases "t \<ge> max_total_products")
    case True
    then show ?thesis using Cons.prems by (simp add: plan_loop_closed)
  next
    case False
    let ?b = "take batch_size (discover_products_in_category e led (cat_url c) (cat_name c))"
    have "length (plan_loop e led cs (acc @ ?b) (t + length ?b)) < max_total_products + batch_size"
      by (rule Cons.IH) (use Cons.prems False in simp_all)
    then show ?thesis using False by (simp add: Let_def)
  qed
qed

lemma planned_at_most: "length (planned e led) < 70"
  using plan_loop_at_most [of 0 "[]" e led "categories_to_scan e"]
  by (simp add: planned_def max_total_products_def batch_size_def)

section \<open>Discovery against a larger ledger\<close>

lemma new_product_of_ledger:
  "new_product_of e led cu cn l =
     (case new_product_of e [] cu cn l of
        None \<Rightarrow> None
      | Some i \<Rightarrow> if JStr (item_url i) \<in> set led then None else Some i)"
proof (cases "href l")
  case None
  then show ?thesis by (simp add: new_product_of_def)
next
  case (Some h)
  then show ?thesis by (simp add: new_product_of_def Let_def)
qed

lemma map_filter_ledger:
  "List.map_filter (new_product_of e led cu cn) xs =
     filter (\<lambda>i. JStr (item_url i) \<notin> set led) (List.map_filter (new_product_of e [] cu cn) xs)"
proof (induction xs)
  case Nil
  then show ?case by (simp add: List.map_filter_simps)
next
  case (Cons x xs)
  show ?case
  proof (cases "new_product_of e [] cu cn x")
    case None
    then have "new_product_of e led cu cn x = None"
      by (simp add: new_product_of_ledger [of e led])
    then show ?thesis using None Cons.IH by (simp add: List.map_filter_simps)
  next
    case (Some i)
    then have "new_product_of e led cu cn x = (if JStr (item_url i) \<in> set led then None else Some i)"
      by (simp add: new_product_of_ledger [of e led])
    then show ?thesis using Some Cons.IH by (simp add: List.map_filter_simps)
  qed
qed

lemma discover_filter:
  "discover_products_in_category e led cu cn =
     filter (\<lambda>i. JStr (item_url i) \<notin> set led) (discover_products_in_category e [] cu cn)"
proof (cases "fetch e cu")
  case None
  then show ?thesis by (simp add: discover_products_in_category_def)
next
  case (Some soup)
  let ?Q = "\<lambda>i. JStr (item_url i) \<notin> set led"
  let ?found = "\<lambda>l. concat (map (\<lambda>selector. List.map_filter (new_product_of e l cu cn)
                                    (filter selector (anchors soup))) product_selectors)"
  have "?found led = filter ?Q (?found [])"
    by (simp add: filter_concat comp_def map_filter_ledger [of e led])
  then have "unique_by item_url [] (?found led) = unique_by item_url [] (filter ?Q (?found []))"
    by simp
  also have "\<dots> = filter ?Q (unique_by item_url [] (?found []))"
    by (rule unique_by_filter) simp
  finally show ?thesis using Some by (simp add: discover_products_in_category_def)
qed

lemma discover_cong:
  assumes "set l1 = set l2"
  shows "discover_products_in_category e l1 cu cn = discover_products_in_category e l2 cu cn"
proof -
  have "discover_products_in_category e l1 cu cn
          = filter (\<lambda>i. JStr (item_url i) \<notin> set l1) (discover_products_in_category e [] cu cn)"
    by (rule discover_filter)
  also have "\<dots> = filter (\<lambda>i. JStr (item_url i) \<notin> set l2) (discover_products_in_category e [] cu cn)"
    by (simp add: assms)
  also have "\<dots> = discover_products_in_category e l2 cu cn"
    by (rule discover_filter [symmetric])
  finally show ?thesis .
qed

lemma plan_loop_cong:
  assumes "set l1 = set l2"
  shows "plan_loop e l1 cs acc t = plan_loop e l2 cs acc t"
proof (induction cs arbitrary: acc t)
  case Nil
  then show ?case by simp
next
  case (Cons c cs)
  show ?case
    by (simp add: Let_def Cons.IH discover_cong [OF assms])
qed

lemma planned_cong: "set l1 = set l2 \<Longrightarrow> planned e l1 = planned e l2"
  unfolding planned_def by (rule plan_loop_cong)

lemma length_filter_mono:
  assumes "\<And>x. P x \<Longrightarrow> Q x"
  shows "length (filter P xs) \<le> length (filter Q xs)"
proof (induction xs)
  case Nil
  then show ?case by simp
next
  case (Cons x xs)
  show ?case
  proof (cases "P x")
    case True
    then have "Q x" by (rule assms)
    then show ?thesis using True Cons.IH by simp
  next
    case False
    then show ?thesis using Cons.IH by (simp add: le_SucI)
  qed
qed

lemma batch_mono:
  assumes "set l1 \<subseteq> set l2"
  shows "length (take n (discover_products_in_category e l2 cu cn))
           \<le> length (take n (discover_products_in_category e l1 cu cn))"
proof -
  have "length (discover_products_in_category e l2 cu cn)
          \<le> length (discover_products_in_category e l1 cu cn)"
    unfolding discover_filter [of e l2] discover_filter [of e l1]
    by (rule length_filter_mono) (use assms in blast)
  then show ?thesis by simp
qed

lemma batches_mono:
  assumes "set l1 \<subseteq> set l2"
  shows "length (concat (batches e l2)) \<le> length (concat (batches e l1))"
  unfolding batches_def batches_of_def length_concat map_map comp_def
  by (rule sum_list_mono) (rule batch_mono [OF assms])

lemma planned_second_no_more:
  assumes "set l1 \<subseteq> set l2" and "length (planned e l1) < max_total_products"
  shows "length (planned e l2) \<le> length (planned e l1)"
proof -
  have small: "length (concat (batches e l1)) < max_total_products"
  proof (rule ccontr)
    assume "\<not> length (concat (batches e l1)) < max_total_products"
    then have "max_total_products \<le> length (planned e l1)"
      using planned_reaches_cap [of e l1] by simp
    then show False using assms(2) by simp
  qed
  have "length (planned e l2) \<le> length (concat (batches e l2))"
    by (rule planned_length_le)
  also have "\<dots> \<le> length (concat (batches e l1))"
    by (rule batches_mono) (rule assms(1))
  also have "\<dots> = length (planned e l1)"
    using planned_all [OF small] by simp
  finally show ?thesis .
qed

section \<open>A fetched page always yields an image\<close>

lemma first_some_Some: "first_some f xs = Some y \<Longrightarrow> \<exists>x \<in> set xs. f x = Some y"
  by (induction xs) (auto split: option.splits)

lemma py_in_nonempty: "py_in (c # p) s \<Longrightarrow> s \<noteq> []"
  by (cases s) simp_all

lemma accept_img_nonempty:
  assumes "accept_img e i = Some u"
  shows "u \<noteq> []"
proof -
  obtain v where v: "py_or (py_or (src i) (data_src i)) (data_lazy i) = Some v"
    using assms by (cases "py_or (py_or (src i) (data_src i)) (data_lazy i)") (simp_all add: accept_img_def)
  from assms have "py_in ''mac'' (py_lower u) \<or> py_in ''maccosmetics'' (py_lower u)"
    unfolding accept_img_def v by (simp add: Let_def split: if_splits)
  then have "py_lower u \<noteq> []" using py_in_nonempty by blast
  then show ?thesis by (auto simp: py_lower_def)
qed

lemma potential_image_urls_nonempty: "u \<in> set (potential_image_urls n) \<Longrightarrow> u \<noteq> []"
  by (auto simp: potential_image_urls_def Let_def)

lemma extract_image_nonempty:
  assumes "fetch e u \<noteq> None"
  shows "extract_image_from_product_page e u n \<noteq> []"
proof -
  from assms obtain soup where soup: "fetch e u = Some soup" by auto
  show ?thesis
  proof (cases "scan_images e soup")
    case (Some img)
    then obtain i where "accept_img e i = Some img"
      unfolding scan_images_def using first_some_Some by fast
    then have "img \<noteq> []" by (rule accept_img_nonempty)
    then show ?thesis using soup Some by (simp add: extract_image_from_product_page_def)
  next
    case None
    show ?thesis
    proof (cases "List.find (head_ok e) (potential_image_urls n)")
      case nf: None
      then show ?thesis using soup None
        by (simp add: extract_image_from_product_page_def fallback_image_nonempty)
    next
      case (Some p)
      then have "p \<in> set (potential_image_urls n)"
        by (auto simp: find_Some_iff)
      then have "p \<noteq> []" by (rule potential_image_urls_nonempty)
      then show ?thesis using soup None Some by (simp add: extract_image_from_product_page_def)
    qed
  qed
qed

lemma image_url_scrape_product:
  "image_url (scrape_product e i) = extract_image_from_product_page e (item_url i) (item_name i)"
  by (simp add: scrape_product_def update_product_def Let_def)

lemma scraped_all_kept:
  assumes "\<forall>u. fetch e u \<noteq> None"
  shows "filter (\<lambda>p. image_url p \<noteq> []) (map (scrape_product e) items) = map (scrape_product e) items"
proof -
  have "image_url (scrape_product e i) \<noteq> []" for i
    unfolding image_url_scrape_product by (rule extract_image_nonempty) (simp add: assms)
  then show ?thesis by (simp add: filter_id_conv)
qed

section \<open>Two runs with the ledger carried over\<close>

text \<open>
  C2, as the code has it: when the first run's write of the ledger succeeds and the source
  is unchanged, no product URL scraped by the second run was scraped by the first, and
  within a run each category's batch holds no URL twice; the second run scrapes no more
  products than the first whenever the first scraped fewer than 60. Nothing removes a URL
  that two categories of one run both list.
\<close>

theorem second_run_repeats_no_product:
  assumes "progress_write e = Written"
  shows "product_url ` set (m_scraped_products (run e (m_disk (run e d))))
           \<inter> product_url ` set (m_scraped_products (run e d)) = {}
         \<and> (\<forall>b \<in> set (batches e (init_scraped_urls (progress_file d))). distinct (map item_url b))
         \<and> (length (m_scraped_products (run e d)) < 60 \<longrightarrow>
              length (m_scraped_products (run e (m_disk (run e d))))
                \<le> length (m_scraped_products (run e d)))"
proof -
  let ?l1 = "init_scraped_urls (progress_file d)"
  let ?l2 = "init_scraped_urls (progress_file (m_disk (run e d)))"
  have l2: "set ?l2 = set ?l1 \<union> JStr ` item_url ` set (planned e ?l1)"
    by (rule ledger_after_run) (rule assms)
  have disj: "item_url ` set (planned e ?l2) \<inter> item_url ` set (planned e ?l1) = {}"
  proof (rule ccontr)
    assume "item_url ` set (planned e ?l2) \<inter> item_url ` set (planned e ?l1) \<noteq> {}"
    then obtain j i where j: "j \<in> set (planned e ?l2)" and i: "i \<in> set (planned e ?l1)"
      and eq: "item_url j = item_url i" by auto
    have "JStr (item_url i) \<in> set ?l2" using i l2 by simp
    with planned_not_in_ledger [OF j] eq show False by simp
  qed
  have dist: "\<forall>b \<in> set (batches e ?l1). distinct (map item_url b)"
  proof
    fix b assume "b \<in> set (batches e ?l1)"
    then obtain c :: category
      where b: "b = take batch_size (discover_products_in_category e ?l1 (cat_url c) (cat_name c))"
      by (auto simp: batches_def batches_of_def)
    have "distinct (map item_url (discover_products_in_category e ?l1 (cat_url c) (cat_name c)))"
      by (cases "fetch e (cat_url c)")
         (simp_all add: discover_products_in_category_def unique_by_distinct)
    then show "distinct (map item_url b)"
      unfolding b take_map [symmetric] by (rule distinct_take)
  qed
  have count: "length (planned e ?l2) \<le> length (planned e ?l1)"
    if "length (planned e ?l1) < 60"
    by (rule planned_second_no_more) (use l2 that in \<open>auto simp: max_total_products_def\<close>)
  have len: "length (m_scraped_products (run e d')) = length (planned e (init_scraped_urls (progress_file d')))"
    for d' by (simp add: run_eq)
  show ?thesis
    unfolding products_of_run len using disj dist count by blast
qed

section \<open>Facts about the sample sites\<close>

lemma item_url_sample_item [simp]:
  "item_url (sample_item c p n) = base_url @ ''/product/'' @ p # replicate n CHR ''x''"
  by (simp add: sample_item_def)

lemma sample_env_fetches: "fetch (sample_env rows) u \<noteq> None"
  by (simp add: sample_env_def split: option.split)

lemma sample_env_writes:
  "progress_write (sample_env rows) = Written" "output_write (sample_env rows) = Written"
  by (simp_all add: sample_env_def)

lemma fresh_ledger: "init_scraped_urls (progress_file fresh_disk) = []"
  by (simp add: fresh_disk_def init_scraped_urls_def load_progress_def load_progress_body_def)

lemma out_products_fresh: "out_products fresh_disk = []"
  by (simp add: fresh_disk_def out_products_def)

lemma length_products_of_run:
  "length (m_scraped_products (run e d)) = length (planned e (init_scraped_urls (progress_file d)))"
  by (simp add: run_eq)

lemma wide_categories:
  "categories_to_scan (sample_env wide_site) = map sample_category ''abcde''"
  by code_simp

lemma wide_discover:
  "list_all (\<lambda>c. discover_products_in_category (sample_env wide_site) []
                    (cat_url (sample_category c)) (cat_name (sample_category c))
                  = map (sample_item c c) [0..<13]) ''abcde''"
  by code_simp

lemma shared_categories:
  "categories_to_scan (sample_env shared_site) = map sample_category ''abcdefg''"
  by code_simp

lemma shared_discover:
  "list_all (\<lambda>c. discover_products_in_category (sample_env shared_site) []
                    (cat_url (sample_category c)) (cat_name (sample_category c))
                  = map (sample_item c CHR ''p'') [0..<20]) ''abcdeg''"
  by code_simp

lemma shared_discover_f:
  "discover_products_in_category (sample_env shared_site) []
     (cat_url (sample_category CHR ''f'')) (cat_name (sample_category CHR ''f''))
   = map (sample_item CHR ''f'' CHR ''p'') [0..<19]"
  by code_simp

lemma shared_discover_again:
  "list_all (\<lambda>c. discover_products_in_category (sample_env shared_site) first_ten
                    (cat_url (sample_category c)) (cat_name (sample_category c))
                  = map (sample_item c CHR ''p'') [10..<20]) ''abcdeg''"
  by code_simp

lemma shared_discover_again_f:
  "discover_products_in_category (sample_env shared_site) first_ten
     (cat_url (sample_category CHR ''f'')) (cat_name (sample_category CHR ''f''))
   = map (sample_item CHR ''f'' CHR ''p'') [10..<19]"
  by code_simp

lemma shared_planned:
  "planned (sample_env shared_site) []
     = concat (map (\<lambda>c. map (sample_item c CHR ''p'') [0..<10]) ''abcdef'')"
  using shared_discover shared_discover_f
  by (simp add: planned_def shared_categories Let_def batch_size_def max_total_products_def take_map)

lemma shared_planned_again:
  "planned (sample_env shared_site) first_ten
     = concat (map (\<lambda>c. map (sample_item c CHR ''p'') [10..<20]) ''abcde'')
       @ map (sample_item CHR ''f'' CHR ''p'') [10..<19]
       @ map (sample_item CHR ''g'' CHR ''p'') [10..<20]"
  using shared_discover_again shared_discover_again_f
  by (simp add: planned_def shared_categories Let_def batch_size_def max_total_products_def take_map)


section \<open>The batch on sample sites\<close>

theorem per_category_cap_witness:
  "length (discover_products_in_category (sample_env wide_site) []
             (cat_url (sample_category CHR ''a'')) (cat_name (sample_category CHR ''a''))) = 13
   \<and> length (filter (\<lambda>i. item_category_url i = cat_url (sample_category CHR ''a''))
                (planned (sample_env wide_site) [])) \<le> 10"
proof -
  have "length (discover_products_in_category (sample_env wide_site) []
             (cat_url (sample_category CHR ''a'')) (cat_name (sample_category CHR ''a''))) = 13"
    using wide_discover by simp
  then show ?thesis
    using per_category_cap [of "cat_url (sample_category CHR ''a'')" "sample_env wide_site" "[]"]
    by blast
qed

lemma nine_categories:
  "categories_to_scan (sample_env nine_site) = map sample_category ''abcdefg''"
  by code_simp

lemma nine_discover:
  "list_all (\<lambda>c. discover_products_in_category (sample_env nine_site) []
                    (cat_url (sample_category c)) (cat_name (sample_category c))
                  = map (sample_item c c) [0..<9]) ''abcdefg''"
  by code_simp

text \<open>
  C3: the script announces a maximum of 60 products for a run, and the plan should hold
  exactly 60 work items when the categories offer more. The code tests the total only
  before it opens a category. On the site with seven categories of nine products each, 63
  new products are candidates; after six categories the total is 54, the seventh category
  is opened, and all 63 are planned.
\<close>

theorem plan_exceeds_global_cap:
  "length (candidates (sample_env nine_site) []) = 63
   \<and> planned (sample_env nine_site) [] = candidates (sample_env nine_site) []
   \<and> length (planned (sample_env nine_site) []) = 63
   \<and> max_total_products = 60"
proof -
  have c: "candidates (sample_env nine_site) []
             = concat (map (\<lambda>c. map (sample_item c c) [0..<9]) ''abcdefg'')"
    using nine_discover by (simp add: candidates_def nine_categories)
  have p: "planned (sample_env nine_site) []
             = concat (map (\<lambda>c. map (sample_item c c) [0..<9]) ''abcdefg'')"
    using nine_discover
    by (simp add: planned_def nine_categories Let_def batch_size_def max_total_products_def take_map)
  have "length (candidates (sample_env nine_site) []) = 63"
    by (simp add: c)
  then show ?thesis by (simp add: c p max_total_products_def)
qed

section \<open>Two runs on the shared site\<close>

lemma shared_ledger:
  "set (init_scraped_urls (progress_file (m_disk (run (sample_env shared_site) fresh_disk))))
     = set first_ten"
  by (simp add: ledger_after_run sample_env_writes fresh_ledger shared_planned first_ten_def image_Un
      image_image)

lemma shared_first_urls:
  "\<not> distinct (map item_url (planned (sample_env shared_site) []))"
proof -
  let ?U = "map (\<lambda>n. base_url @ ''/product/'' @ CHR ''p'' # replicate n CHR ''x'') [0..<10]"
  obtain R where R: "map item_url (planned (sample_env shared_site) []) = ?U @ ?U @ R"
    by (simp add: shared_planned comp_def)
  have "?U \<noteq> []" by simp
  then have "hd ?U \<in> set ?U" by (rule hd_in_set)
  then have "\<not> distinct (?U @ ?U @ R)" by auto
  then show ?thesis unfolding R .
qed

text \<open>
  C2 as stated fails: on the site whose seven categories show the same products, the first
  run scrapes 60 products and the second, with the ledger of the first, 69; the output
  after both runs holds a product URL more than once.
\<close>

theorem second_run_larger_and_duplicates:
  "length (m_scraped_products (run (sample_env shared_site) fresh_disk)) = 60
   \<and> length (m_scraped_products (run (sample_env shared_site)
                (m_disk (run (sample_env shared_site) fresh_disk)))) = 69
   \<and> \<not> distinct (map product_url (out_products (m_disk (run (sample_env shared_site)
                (m_disk (run (sample_env shared_site) fresh_disk))))))"
proof -
  let ?S = "sample_env shared_site"
  let ?d1 = "m_disk (run ?S fresh_disk)"
  have one: "length (m_scraped_products (run ?S fresh_disk)) = 60"
    by (simp add: length_products_of_run fresh_ledger shared_planned)
  have "planned ?S (init_scraped_urls (progress_file ?d1)) = planned ?S first_ten"
    by (rule planned_cong) (rule shared_ledger)
  then have two: "length (m_scraped_products (run ?S ?d1)) = 69"
    by (simp add: length_products_of_run shared_planned_again)
  have kept: "filter (\<lambda>p. image_url p \<noteq> []) (map (scrape_product ?S) items)
                = map (scrape_product ?S) items" for items
    by (rule scraped_all_kept) (simp add: sample_env_fetches)
  have out1: "out_products ?d1 = map (scrape_product ?S) (planned ?S [])"
    by (simp add: out_products_run sample_env_writes out_products_fresh fresh_ledger kept)
  have "map product_url (out_products (m_disk (run ?S ?d1)))
          = map item_url (planned ?S [])
            @ map item_url (planned ?S (init_scraped_urls (progress_file ?d1)))"
    by (simp add: out_products_run [of ?S ?d1] sample_env_writes out1 kept comp_def)
  then have "\<not> distinct (map product_url (out_products (m_disk (run ?S ?d1))))"
    using shared_first_urls by simp
  then show ?thesis using one two by blast
qed

theorem second_run_repeats_no_product_witness:
  "length (m_scraped_products (run (sample_env small_site) fresh_disk)) = 2
   \<and> length (m_scraped_products (run (sample_env small_site)
                (m_disk (run (sample_env small_site) fresh_disk))))
       \<le> length (m_scraped_products (run (sample_env small_site) fresh_disk))
   \<and> product_url ` set (m_scraped_products (run (sample_env small_site)
                (m_disk (run (sample_env small_site) fresh_disk))))
       \<inter> product_url ` set (m_scraped_products (run (sample_env small_site) fresh_disk)) = {}"
proof -
  have pl: "planned (sample_env small_site) [] = map (sample_item CHR ''a'' CHR ''p'') [0..<2]"
    by code_simp
  have two: "length (m_scraped_products (run (sample_env small_site) fresh_disk)) = 2"
    by (simp add: length_products_of_run fresh_ledger pl)
  have w: "progress_write (sample_env small_site) = Written"
    by (rule sample_env_writes)
  from second_run_repeats_no_product [OF w, of fresh_disk] two show ?thesis by simp
qed


end
